theory Spec2Isabelle
  imports Main
begin

section \<open>The i18next integration of withease: data model\<close>

text \<open>
  The source is \<^verbatim>\<open>packages/i18next/src/integration.ts\<close>: one factory,
  \<^verbatim>\<open>createI18nextIntegration\<close>, that wires effector stores, events and effects around
  an i18next instance. The embedding keeps one record field per store of the factory and
  one function per event, sample and effect handler.

  Two libraries are outside the repository and are represented as follows.
  \<^item> An i18next instance is an object reference; it is a natural number here, and
    reference equality is equality of numbers. A listener closure is a reference as well:
    every run of a handler that builds a closure takes a fresh number from the counter
    \<open>fresh\<close>. What the engine is asked to do is recorded in \<open>calls\<close> (every
    \<^verbatim>\<open>on\<close>, \<^verbatim>\<open>off\<close> and \<^verbatim>\<open>init\<close> call, in order) and its emitter is
    \<open>registry\<close>, the listeners currently registered per instance and channel.
    \<^verbatim>\<open>i18next.isInitialized\<close> is the set \<open>isInitialized\<close>, which only the engine changes.
  \<^item> effector propagates one trigger to the end before the next one is handled: pure
    store updates first, effect handlers afterwards, with the \<^verbatim>\<open>source\<close> of an attached
    effect read when its handler runs. A synchronous handler settles in the same pass; an
    \<^verbatim>\<open>async\<close> handler settles later, so each run of \<^verbatim>\<open>initInstanceFx\<close> stays in
    \<open>inflight\<close> until an event \<open>Settle\<close> or \<open>Reject\<close> takes it out. A store ignores
    an update to the value it already holds.
\<close>

type_synonym i18n = nat
type_synonym listener = nat

datatype TFunction = T_bind i18n | identity

record MissinKeyReport =
  lngs :: "string list"
  namespace :: string
  key :: string
  res :: string

datatype channel = MissingKey | LanguageChanged | Added

datatype engine_call = On i18n channel listener | Off i18n channel listener | Init i18n

text \<open>
  A run of \<^verbatim>\<open>initInstanceFx\<close> whose promise has not settled yet: either the handler has
  returned already (with \<^verbatim>\<open>null\<close> or with the instance and its missing-key listener), or
  it is suspended at \<^verbatim>\<open>await i18next.init()\<close>.
\<close>

datatype initInstance_run =
    Returned "(i18n \<times> listener) option"
  | AwaitingInit i18n listener

record state =
  S_instance :: "i18n option"
  S_derivedT :: "TFunction option"
  S_stanaloneT :: "TFunction option"
  S_isReady :: bool
  S_t :: TFunction
  S_contextChangeListener :: "listener option"
  S_missingKeyListener :: "listener option"
  reports :: "MissinKeyReport list"
  inflight :: "initInstance_run list"
  registry :: "(i18n \<times> channel \<times> listener) list"
  calls :: "engine_call list"
  isInitialized :: "i18n set"
  fresh :: nat

section \<open>The engine as the integration uses it\<close>

definition engine_on :: "i18n \<Rightarrow> channel \<Rightarrow> listener \<Rightarrow> state \<Rightarrow> state" where
  "engine_on i c l s =
     s\<lparr>registry := registry s @ [(i, c, l)], calls := calls s @ [On i c l]\<rparr>"

definition engine_off :: "i18n \<Rightarrow> channel \<Rightarrow> listener \<Rightarrow> state \<Rightarrow> state" where
  "engine_off i c l s =
     s\<lparr>registry := removeAll (i, c, l) (registry s), calls := calls s @ [Off i c l]\<rparr>"

definition engine_init :: "i18n \<Rightarrow> state \<Rightarrow> state" where
  "engine_init i s = s\<lparr>calls := calls s @ [Init i]\<rparr>"

definition registered :: "i18n \<Rightarrow> channel \<Rightarrow> state \<Rightarrow> listener list" where
  "registered i c s = map (\<lambda>r. snd (snd r)) (filter (\<lambda>r. fst r = i \<and> fst (snd r) = c) (registry s))"

section \<open>Stores, samples and effects of the factory\<close>

text \<open>Lines 70-73: \<^verbatim>\<open>$t = combine(..., standalone ?? derived ?? identity)\<close>.\<close>

definition combine_t :: "TFunction option \<Rightarrow> TFunction option \<Rightarrow> TFunction" where
  "combine_t derived standalone =
     (case standalone of
        Some f \<Rightarrow> f
      | None \<Rightarrow> (case derived of Some g \<Rightarrow> g | None \<Rightarrow> identity))"

definition update_t :: "state \<Rightarrow> state" where
  "update_t s = s\<lparr>S_t := combine_t (S_derivedT s) (S_stanaloneT s)\<rparr>"

text \<open>Lines 60-62: \<^verbatim>\<open>$derivedT = $instance.map(...)\<close>, recomputed when the instance store updates.\<close>

definition derivedT_of :: "i18n option \<Rightarrow> TFunction option" where
  "derivedT_of i18next = (case i18next of Some i \<Rightarrow> Some (T_bind i) | None \<Rightarrow> None)"

text \<open>Lines 79-86: the sample that writes \<^verbatim>\<open>$stanaloneT\<close>.\<close>

definition set_stanaloneT :: "i18n \<Rightarrow> state \<Rightarrow> state" where
  "set_stanaloneT i18next s = update_t (s\<lparr>S_stanaloneT := Some (T_bind i18next)\<rparr>)"

text \<open>Lines 79-92: \<^verbatim>\<open>instanceInitialized\<close> is the clock of two samples.\<close>

definition instanceInitialized :: "i18n \<Rightarrow> state \<Rightarrow> state" where
  "instanceInitialized i18next s = (set_stanaloneT i18next s)\<lparr>S_isReady := True\<rparr>"

text \<open>Line 82: \<^verbatim>\<open>contextChanged\<close> is sampled with the current instance and filtered by \<^verbatim>\<open>Boolean\<close>.\<close>

definition contextChanged :: "state \<Rightarrow> state" where
  "contextChanged s =
     (case S_instance s of
        None \<Rightarrow> s
      | Some i18next \<Rightarrow> set_stanaloneT i18next s)"

text \<open>Lines 75-77 and 138-144: a missing-key listener publishes one report per call.\<close>

definition reporting_missingKey :: "MissinKeyReport \<Rightarrow> state \<Rightarrow> state" where
  "reporting_missingKey r s = s\<lparr>reports := reports s @ [r]\<rparr>"

text \<open>Lines 130-154: the handler of \<^verbatim>\<open>initInstanceFx\<close>, up to its return or its \<^verbatim>\<open>await\<close>.\<close>

definition initInstanceFx :: "state \<Rightarrow> state" where
  "initInstanceFx s =
     (case S_instance s of
        None \<Rightarrow> s\<lparr>inflight := inflight s @ [Returned None]\<rparr>
      | Some i18next \<Rightarrow>
          (let missingKeyListener = fresh s;
               s1 = engine_on i18next MissingKey missingKeyListener (s\<lparr>fresh := Suc (fresh s)\<rparr>)
           in if i18next \<in> isInitialized s1
              then s1\<lparr>inflight := inflight s1 @ [Returned (Some (i18next, missingKeyListener))]\<rparr>
              else (engine_init i18next s1)
                     \<lparr>inflight := inflight s1 @ [AwaitingInit i18next missingKeyListener]\<rparr>))"

text \<open>
  Lines 164-174 and 206-210: \<^verbatim>\<open>setupListenersFx\<close> is synchronous, so its \<^verbatim>\<open>doneData\<close>
  writes \<^verbatim>\<open>$contextChangeListener\<close> in the same pass.
\<close>

definition setupListenersFx :: "i18n \<Rightarrow> state \<Rightarrow> state" where
  "setupListenersFx i18next s =
     (let contextChangeListener = fresh s;
          s1 = engine_on i18next LanguageChanged contextChangeListener (s\<lparr>fresh := Suc (fresh s)\<rparr>);
          s2 = engine_on i18next Added contextChangeListener s1
      in s2\<lparr>S_contextChangeListener := Some contextChangeListener\<rparr>)"

text \<open>Lines 199-204 and 211-216: the two samples clocked by \<^verbatim>\<open>initInstanceFx.doneData\<close>.\<close>

definition initInstanceFx_doneData :: "(i18n \<times> listener) option \<Rightarrow> state \<Rightarrow> state" where
  "initInstanceFx_doneData result s =
     (case result of
        None \<Rightarrow> s
      | Some (i18next, missingKeyListener) \<Rightarrow>
          setupListenersFx i18next
            ((instanceInitialized i18next s)\<lparr>S_missingKeyListener := Some missingKeyListener\<rparr>))"

text \<open>Lines 176-196: the handler of \<^verbatim>\<open>destroyListenersFx\<close>.\<close>

definition destroyListenersFx :: "state \<Rightarrow> state" where
  "destroyListenersFx s =
     (case S_instance s of
        None \<Rightarrow> s
      | Some i18next \<Rightarrow>
          (let s1 = (case S_contextChangeListener s of
                       Some contextChangeListener \<Rightarrow>
                         engine_off i18next Added contextChangeListener
                           (engine_off i18next LanguageChanged contextChangeListener s)
                     | None \<Rightarrow> s)
           in (case S_missingKeyListener s of
                 Some missingKeyListener \<Rightarrow> engine_off i18next MissingKey missingKeyListener s1
               | None \<Rightarrow> s1)))"

text \<open>
  Lines 94 and 217-221: \<^verbatim>\<open>destroy\<close> clears readiness, runs \<^verbatim>\<open>destroyListenersFx\<close>, and its
  \<^verbatim>\<open>done\<close> reinitialises both listener stores.
\<close>

definition destroy :: "state \<Rightarrow> state" where
  "destroy s =
     (destroyListenersFx (s\<lparr>S_isReady := False\<rparr>))
       \<lparr>S_contextChangeListener := None, S_missingKeyListener := None\<rparr>"

section \<open>What can happen to an integration\<close>

datatype event =
    Setup
  | Teardown
  | Instance_set "i18n option"
  | Settle nat
  | Reject nat
  | Emit_missingKey i18n MissinKeyReport
  | Emit_languageChanged i18n
  | Emit_added i18n
  | Engine_initialized i18n bool

definition drop_nth :: "nat \<Rightarrow> 'a list \<Rightarrow> 'a list" where
  "drop_nth k xs = take k xs @ drop (Suc k) xs"

text \<open>
  \<open>Settle k\<close>: the promise of the \<open>k\<close>-th run in flight is fulfilled; for a suspended
  run this is \<^verbatim>\<open>i18next.init()\<close> resolving. \<open>Reject k\<close>: \<^verbatim>\<open>init()\<close> of a suspended run
  rejects, and nothing listens to the effect's failure.
\<close>

definition settle_run :: "nat \<Rightarrow> state \<Rightarrow> state" where
  "settle_run k s =
     (if k < length (inflight s)
      then (let s1 = s\<lparr>inflight := drop_nth k (inflight s)\<rparr>
            in case inflight s ! k of
                 Returned result \<Rightarrow> initInstanceFx_doneData result s1
               | AwaitingInit i18next missingKeyListener \<Rightarrow>
                   initInstanceFx_doneData (Some (i18next, missingKeyListener)) s1)
      else s)"

definition reject_run :: "nat \<Rightarrow> state \<Rightarrow> state" where
  "reject_run k s =
     (if k < length (inflight s)
      then (case inflight s ! k of
              Returned result \<Rightarrow> s
            | AwaitingInit i18next missingKeyListener \<Rightarrow> s\<lparr>inflight := drop_nth k (inflight s)\<rparr>)
      else s)"

text \<open>Line 198: the instance store's \<^verbatim>\<open>updates\<close> fire only when its value changes.\<close>

definition instance_updates :: "i18n option \<Rightarrow> state \<Rightarrow> state" where
  "instance_updates v s =
     (if v = S_instance s then s
      else initInstanceFx (update_t (s\<lparr>S_instance := v, S_derivedT := derivedT_of v\<rparr>)))"

fun step :: "state \<Rightarrow> event \<Rightarrow> state" where
  "step s Setup = initInstanceFx s"
| "step s Teardown = destroy s"
| "step s (Instance_set v) = instance_updates v s"
| "step s (Settle k) = settle_run k s"
| "step s (Reject k) = reject_run k s"
| "step s (Emit_missingKey i r) = fold (\<lambda>l. reporting_missingKey r) (registered i MissingKey s) s"
| "step s (Emit_languageChanged i) = fold (\<lambda>l. contextChanged) (registered i LanguageChanged s) s"
| "step s (Emit_added i) = fold (\<lambda>l. contextChanged) (registered i Added s) s"
| "step s (Engine_initialized i b) =
     s\<lparr>isInitialized := (if b then insert i (isInitialized s) else isInitialized s - {i})\<rparr>"

definition run :: "state \<Rightarrow> event list \<Rightarrow> state" where
  "run s es = foldl step s es"

text \<open>Lines 38-68: the state right after the factory has returned.\<close>

definition createI18nextIntegration :: "i18n option \<Rightarrow> i18n set \<Rightarrow> state" where
  "createI18nextIntegration inst ready_engines =
     \<lparr>S_instance = inst,
      S_derivedT = derivedT_of inst,
      S_stanaloneT = None,
      S_isReady = False,
      S_t = combine_t (derivedT_of inst) None,
      S_contextChangeListener = None,
      S_missingKeyListener = None,
      reports = [],
      inflight = [],
      registry = [],
      calls = [],
      isInitialized = ready_engines,
      fresh = 0\<rparr>"

section \<open>The translation API\<close>

text \<open>
  The engine's \<^verbatim>\<open>t\<close> is a parameter: it receives the instance, the key and the variables
  object when one is passed. A caller's \<^verbatim>\<open>Store<string>\<close> is a number, and the current
  values of all of them are a function from these numbers.
\<close>

type_synonym engine_t = "i18n \<Rightarrow> string \<Rightarrow> (string \<times> string) list option \<Rightarrow> string"

fun call_t :: "engine_t \<Rightarrow> TFunction \<Rightarrow> string \<Rightarrow> (string \<times> string) list option \<Rightarrow> string" where
  "call_t E identity k vars = k"
| "call_t E (T_bind i18next) k vars = E i18next k vars"

text \<open>Lines 105-109: \<^verbatim>\<open>parts.forEach\<close>, with \<^verbatim>\<open>dynamicParts[i] ?? ''\<close> past the end.\<close>

fun forEach_push :: "string list \<Rightarrow> string list \<Rightarrow> nat \<Rightarrow> string list \<Rightarrow> string list" where
  "forEach_push [] dynamicParts i result = result"
| "forEach_push (part # rest) dynamicParts i result =
     forEach_push rest dynamicParts (Suc i)
       (result @ [part, (if i < length dynamicParts then dynamicParts ! i else [])])"

definition finalKey :: "string list \<Rightarrow> string list \<Rightarrow> string" where
  "finalKey parts dynamicParts = concat (forEach_push parts dynamicParts 0 [])"

definition translatedLiteral ::
  "string list \<Rightarrow> nat list \<Rightarrow> engine_t \<Rightarrow> (nat \<Rightarrow> string) \<Rightarrow> state \<Rightarrow> string" where
  "translatedLiteral parts stores E vals s =
     call_t E (S_t s) (finalKey parts (map vals stores)) None"

definition translatedWithVariables ::
  "string \<Rightarrow> (string \<times> nat) list option \<Rightarrow> engine_t \<Rightarrow> (nat \<Rightarrow> string) \<Rightarrow> state \<Rightarrow> string" where
  "translatedWithVariables k variables E vals s =
     call_t E (S_t s) k
       (Some (map (\<lambda>(name, store). (name, vals store))
                (case variables of Some vs \<Rightarrow> vs | None \<Rightarrow> [])))"

datatype translated_args =
    KeyForm string "(string \<times> nat) list option"
  | TemplateForm "string list" "nat list"

fun translated :: "translated_args \<Rightarrow> engine_t \<Rightarrow> (nat \<Rightarrow> string) \<Rightarrow> state \<Rightarrow> string" where
  "translated (KeyForm firstArg variables) = translatedWithVariables firstArg variables"
| "translated (TemplateForm firstArg stores) = translatedLiteral firstArg stores"

section \<open>Predicates used in the statements\<close>

definition t_consistent :: "state \<Rightarrow> bool" where
  "t_consistent s = (S_t s = combine_t (S_derivedT s) (S_stanaloneT s))"

definition resolves :: "event \<Rightarrow> bool" where
  "resolves e = (case e of Instance_set (Some i) \<Rightarrow> True | _ \<Rightarrow> False)"

definition unbound :: "state \<Rightarrow> bool" where
  "unbound s =
     (S_instance s = None \<and> S_derivedT s = None \<and> S_stanaloneT s = None \<and> S_t s = identity \<and>
      registry s = [] \<and> filter (\<lambda>r. r \<noteq> Returned None) (inflight s) = [])"

fun is_Off :: "engine_call \<Rightarrow> bool" where
  "is_Off (Off i c l) = True"
| "is_Off (On i c l) = False"
| "is_Off (Init i) = False"

fun is_Settle :: "event \<Rightarrow> bool" where
  "is_Settle (Settle k) = True"
| "is_Settle e = False"

fun ends_run :: "event \<Rightarrow> bool" where
  "ends_run (Settle k) = True"
| "ends_run (Reject k) = True"
| "ends_run e = False"

fun engine_event :: "event \<Rightarrow> bool" where
  "engine_event (Emit_missingKey i r) = True"
| "engine_event (Emit_languageChanged i) = True"
| "engine_event (Emit_added i) = True"
| "engine_event (Engine_initialized i b) = True"
| "engine_event e = False"

definition held :: "state \<Rightarrow> (i18n \<times> channel \<times> listener) list" where
  "held s =
     (case S_instance s of
        None \<Rightarrow> []
      | Some i \<Rightarrow>
          (case S_contextChangeListener s of
             None \<Rightarrow> []
           | Some c \<Rightarrow> [(i, LanguageChanged, c), (i, Added, c)])
          @ (case S_missingKeyListener s of None \<Rightarrow> [] | Some m \<Rightarrow> [(i, MissingKey, m)]))"

definition wiring ::
  "state \<Rightarrow> i18n option \<times> listener option \<times> listener option \<times> bool \<times> initInstance_run list \<times>
     (i18n \<times> channel \<times> listener) list \<times> engine_call list \<times> nat" where
  "wiring s =
     (S_instance s, S_contextChangeListener s, S_missingKeyListener s, S_isReady s, inflight s,
      registry s, calls s, fresh s)"

definition lifecycle :: "i18n \<Rightarrow> i18n set \<Rightarrow> event list \<Rightarrow> event list \<Rightarrow> state" where
  "lifecycle j ini ns1 ns2 =
     run (createI18nextIntegration (Some j) ini) (Setup # ns1 @ Settle 0 # ns2)"

fun keeps_listeners :: "event \<Rightarrow> bool" where
  "keeps_listeners Setup = False"
| "keeps_listeners Teardown = False"
| "keeps_listeners (Instance_set v) = False"
| "keeps_listeners e = True"

fun published :: "state \<Rightarrow> event \<Rightarrow> MissinKeyReport list" where
  "published s (Emit_missingKey j r) = replicate (length (registered j MissingKey s)) r"
| "published s e = []"

fun emitted :: "event \<Rightarrow> MissinKeyReport list" where
  "emitted (Emit_missingKey j r) = [r]"
| "emitted e = []"

fun only_from :: "i18n \<Rightarrow> event \<Rightarrow> bool" where
  "only_from i (Emit_missingKey j r) = (j = i)"
| "only_from i e = True"

section \<open>Unfolding rules and the invariant of the public translate-function\<close>

lemmas store_defs =
  update_t_def set_stanaloneT_def instanceInitialized_def contextChanged_def
  reporting_missingKey_def engine_on_def engine_off_def engine_init_def

lemmas effect_defs =
  initInstanceFx_def setupListenersFx_def initInstanceFx_doneData_def
  destroyListenersFx_def destroy_def settle_run_def reject_run_def instance_updates_def

lemma fold_const_preserves:
  assumes "\<And>s. P s \<Longrightarrow> P (f s)" and "P s"
  shows "P (fold (\<lambda>l. f) ls s)"
  using assms(2) by (induction ls arbitrary: s) (simp_all add: assms(1))

lemma t_consistent_contextChanged: "t_consistent s \<Longrightarrow> t_consistent (contextChanged s)"
  by (simp add: t_consistent_def store_defs split: option.splits)

lemma t_consistent_reporting: "t_consistent s \<Longrightarrow> t_consistent (reporting_missingKey r s)"
  by (simp add: t_consistent_def store_defs)

lemma t_consistent_initInstanceFx: "t_consistent s \<Longrightarrow> t_consistent (initInstanceFx s)"
  by (simp add: t_consistent_def store_defs initInstanceFx_def Let_def split: option.splits)

lemma t_consistent_doneData: "t_consistent s \<Longrightarrow> t_consistent (initInstanceFx_doneData r s)"
  by (simp add: t_consistent_def store_defs initInstanceFx_doneData_def setupListenersFx_def Let_def
      split: option.splits)

lemma t_consistent_destroy: "t_consistent s \<Longrightarrow> t_consistent (destroy s)"
  by (simp add: t_consistent_def store_defs destroy_def destroyListenersFx_def Let_def
      split: option.splits)

lemma t_consistent_step:
  assumes c: "t_consistent s"
  shows "t_consistent (step s e)"
proof (cases e)
  case Setup
  then show ?thesis using c by (simp add: t_consistent_initInstanceFx)
next
  case Teardown
  then show ?thesis using c by (simp add: t_consistent_destroy)
next
  case (Instance_set v)
  have "t_consistent (update_t (s\<lparr>S_instance := v, S_derivedT := derivedT_of v\<rparr>))"
    by (simp add: t_consistent_def update_t_def)
  then show ?thesis
    using Instance_set c by (simp add: instance_updates_def t_consistent_initInstanceFx)
next
  case (Settle k)
  have "t_consistent (s\<lparr>inflight := drop_nth k (inflight s)\<rparr>)"
    using c by (simp add: t_consistent_def)
  then show ?thesis
    using Settle c
    by (simp add: settle_run_def Let_def t_consistent_doneData split: initInstance_run.splits)
next
  case (Reject k)
  then show ?thesis
    using c by (simp add: reject_run_def t_consistent_def split: initInstance_run.splits)
next
  case (Emit_missingKey i r)
  then show ?thesis
    using c by (simp add: fold_const_preserves [where P = t_consistent] t_consistent_reporting)
next
  case (Emit_languageChanged i)
  then show ?thesis
    using c by (simp add: fold_const_preserves [where P = t_consistent] t_consistent_contextChanged)
next
  case (Emit_added i)
  then show ?thesis
    using c by (simp add: fold_const_preserves [where P = t_consistent] t_consistent_contextChanged)
next
  case (Engine_initialized i b)
  then show ?thesis using c by (simp add: t_consistent_def)
qed

lemma t_consistent_run: "t_consistent s \<Longrightarrow> t_consistent (run s es)"
  unfolding run_def by (induction es arbitrary: s) (simp_all add: t_consistent_step)

lemma t_consistent_create: "t_consistent (createI18nextIntegration inst ini)"
  by (simp add: t_consistent_def createI18nextIntegration_def)

section \<open>Properties of the integration\<close>

lemma filter_drop_nth: "filter P xs = [] \<Longrightarrow> filter P (drop_nth k xs) = []"
  by (auto simp: drop_nth_def filter_empty_conv dest: in_set_takeD in_set_dropD)

lemma unbound_inflight_nth:
  assumes "unbound s" and "k < length (inflight s)"
  shows "inflight s ! k = Returned None"
proof -
  have "inflight s ! k \<in> set (inflight s)" using assms(2) by simp
  moreover have "\<forall>r\<in>set (inflight s). r = Returned None"
    using assms(1) by (auto simp: unbound_def filter_empty_conv)
  ultimately show ?thesis by blast
qed

lemma unbound_step:
  assumes "unbound s" and "\<not> resolves e"
  shows "unbound (step s e)"
proof (cases e)
  case Setup
  then show ?thesis using assms(1) by (simp add: unbound_def initInstanceFx_def)
next
  case Teardown
  then show ?thesis using assms(1) by (simp add: unbound_def destroy_def destroyListenersFx_def)
next
  case (Instance_set v)
  then have "v = None" using assms(2) by (cases v) (simp_all add: resolves_def)
  then show ?thesis using Instance_set assms(1) by (simp add: unbound_def instance_updates_def)
next
  case (Settle k)
  show ?thesis
  proof (cases "k < length (inflight s)")
    case True
    then have "inflight s ! k = Returned None" using assms(1) by (rule unbound_inflight_nth [rotated])
    then show ?thesis
      using Settle True assms(1)
      by (simp add: settle_run_def initInstanceFx_doneData_def unbound_def filter_drop_nth)
  next
    case False
    then show ?thesis using Settle assms(1) by (simp add: settle_run_def)
  qed
next
  case (Reject k)
  show ?thesis
  proof (cases "k < length (inflight s)")
    case True
    then have "inflight s ! k = Returned None" using assms(1) by (rule unbound_inflight_nth [rotated])
    then show ?thesis using Reject True assms(1) by (simp add: reject_run_def)
  next
    case False
    then show ?thesis using Reject assms(1) by (simp add: reject_run_def)
  qed
next
  case (Emit_missingKey i r)
  then show ?thesis using assms(1) by (simp add: unbound_def registered_def)
next
  case (Emit_languageChanged i)
  then show ?thesis using assms(1) by (simp add: unbound_def registered_def)
next
  case (Emit_added i)
  then show ?thesis using assms(1) by (simp add: unbound_def registered_def)
next
  case (Engine_initialized i b)
  then show ?thesis using assms(1) by (simp add: unbound_def)
qed

lemma unbound_run: "unbound s \<Longrightarrow> \<not> list_ex resolves es \<Longrightarrow> unbound (run s es)"
  unfolding run_def by (induction es arbitrary: s) (simp_all add: unbound_step)

lemma unbound_create: "unbound (createI18nextIntegration None ini)"
  by (simp add: unbound_def createI18nextIntegration_def combine_t_def derivedT_of_def)

subsection \<open>The public translate-function\<close>

text \<open>
  Claim C1. Whatever happens after the factory has returned (any sequence of instance-store
  updates, setup and teardown signals, settling initialisations and engine notifications),
  the store \<^verbatim>\<open>$t\<close> holds \<^verbatim>\<open>standalone ?? derived ?? identity\<close>; its type has no null.
  With no instance and before anything has happened it is \<open>identity\<close>, and
  \<^verbatim>\<open>translated("x")\<close> reads \<^verbatim>\<open>"x"\<close>; the same holds for as long as the instance
  store is never given an instance.
\<close>

theorem public_t_always_defined:
  "S_t (run (createI18nextIntegration inst ini) es) =
     (case S_stanaloneT (run (createI18nextIntegration inst ini) es) of
        Some standalone \<Rightarrow> standalone
      | None \<Rightarrow>
          (case S_derivedT (run (createI18nextIntegration inst ini) es) of
             Some derived \<Rightarrow> derived
           | None \<Rightarrow> identity))
   \<and> S_t (createI18nextIntegration None ini) = identity
   \<and> translated (KeyForm ''x'' None) E vals (createI18nextIntegration None ini) = ''x''
   \<and> (\<not> list_ex resolves es \<longrightarrow>
        S_t (run (createI18nextIntegration None ini) es) = identity \<and>
        translated (KeyForm ''x'' None) E vals (run (createI18nextIntegration None ini) es) = ''x'')"
proof -
  have "t_consistent (run (createI18nextIntegration inst ini) es)"
    by (rule t_consistent_run [OF t_consistent_create])
  then have a: "S_t (run (createI18nextIntegration inst ini) es) =
     (case S_stanaloneT (run (createI18nextIntegration inst ini) es) of
        Some standalone \<Rightarrow> standalone
      | None \<Rightarrow>
          (case S_derivedT (run (createI18nextIntegration inst ini) es) of
             Some derived \<Rightarrow> derived
           | None \<Rightarrow> identity))"
    by (simp add: t_consistent_def combine_t_def)
  have b: "S_t (createI18nextIntegration None ini) = identity"
    using unbound_create [of ini] by (simp add: unbound_def)
  have c: "S_t (run (createI18nextIntegration None ini) es) = identity"
    if "\<not> list_ex resolves es"
    using unbound_run [OF unbound_create that, of ini] by (simp add: unbound_def)
  show ?thesis
    using a b c by (simp add: translatedWithVariables_def)
qed

theorem public_t_always_defined_witness:
  "S_t (run (createI18nextIntegration (Some 0) {}) [Setup, Settle 0, Teardown]) = T_bind 0
   \<and> \<not> list_ex resolves [Setup, Instance_set None, Settle 0, Teardown]
   \<and> S_t (run (createI18nextIntegration None {}) [Setup, Instance_set None, Settle 0, Teardown]) = identity
   \<and> translated (KeyForm ''x'' None) (\<lambda>i k vars. ''unused'') (\<lambda>n. [])
       (run (createI18nextIntegration None {}) [Setup, Instance_set None, Settle 0, Teardown]) = ''x''"
proof -
  have r: "\<not> list_ex resolves [Setup, Instance_set None, Settle 0, Teardown]"
    by (simp add: resolves_def)
  have st: "S_stanaloneT (run (createI18nextIntegration (Some 0) {}) [Setup, Settle 0, Teardown])
            = Some (T_bind 0)"
    by code_simp
  have "S_t (run (createI18nextIntegration (Some 0) {}) [Setup, Settle 0, Teardown]) =
     (case S_stanaloneT (run (createI18nextIntegration (Some 0) {}) [Setup, Settle 0, Teardown]) of
        Some standalone \<Rightarrow> standalone
      | None \<Rightarrow>
          (case S_derivedT (run (createI18nextIntegration (Some 0) {}) [Setup, Settle 0, Teardown]) of
             Some derived \<Rightarrow> derived
           | None \<Rightarrow> identity))"
    using public_t_always_defined [of "Some 0" "{}" "[Setup, Settle 0, Teardown]"] by blast
  then have a: "S_t (run (createI18nextIntegration (Some 0) {}) [Setup, Settle 0, Teardown]) = T_bind 0"
    by (simp only: st option.case)
  have b: "S_t (run (createI18nextIntegration None {}) [Setup, Instance_set None, Settle 0, Teardown]) = identity
    \<and> translated (KeyForm ''x'' None) (\<lambda>i k vars. ''unused'') (\<lambda>n. [])
       (run (createI18nextIntegration None {}) [Setup, Instance_set None, Settle 0, Teardown]) = ''x''"
    using r public_t_always_defined
      [of None "{}" "[Setup, Instance_set None, Settle 0, Teardown]" "\<lambda>i k vars. ''unused''" "\<lambda>n. []"]
    by blast
  show ?thesis using a b r by blast
qed

subsection \<open>The two call forms of the translation API\<close>

lemma forEach_push_eq:
  "forEach_push parts dynamicParts i result =
     result @ concat (map (\<lambda>n. [parts ! n, (if i + n < length dynamicParts then dynamicParts ! (i + n) else [])])
                        [0..<length parts])"
proof (induction parts arbitrary: i result)
  case Nil
  then show ?case by simp
next
  case (Cons part rest)
  show ?case
    by (simp add: Cons.IH map_upt_Suc del: upt_Suc cong: if_cong)
qed

lemma concat_pairs: "concat (concat (map (\<lambda>n. [f n, g n]) ns)) = concat (map (\<lambda>n. f n @ g n) ns)"
  by (induction ns) simp_all

lemma finalKey_eq:
  "finalKey parts dynamicParts =
     concat (map (\<lambda>n. parts ! n @ (if n < length dynamicParts then dynamicParts ! n else []))
               [0..<length parts])"
  by (simp add: finalKey_def forEach_push_eq concat_pairs cong: if_cong)

text \<open>
  Claim C7. In the template form the lookup key is the concatenation, part by part, of each
  literal part followed by the current value of the store in the same position, and the
  empty string where there is no store. For the parts \<^verbatim>\<open>["Hello, ", "!"]\<close> and one store
  holding \<^verbatim>\<open>"World"\<close> the translate-function receives \<^verbatim>\<open>"Hello, World!"\<close>; once the
  store holds \<^verbatim>\<open>"Team"\<close> it receives \<^verbatim>\<open>"Hello, Team!"\<close>, and when \<^verbatim>\<open>$t\<close> is bound to
  an instance the value is what that engine returns for the new key.
\<close>

theorem template_form_key:
  "finalKey parts dynamicParts =
     concat (map (\<lambda>n. parts ! n @ (if n < length dynamicParts then dynamicParts ! n else []))
               [0..<length parts])
   \<and> translated (TemplateForm parts stores) E vals s =
       call_t E (S_t s) (finalKey parts (map vals stores)) None
   \<and> translated (TemplateForm [''Hello, '', ''!''] [x]) E (vals(x := ''World'')) s =
       call_t E (S_t s) ''Hello, World!'' None
   \<and> translated (TemplateForm [''Hello, '', ''!''] [x]) E (vals(x := ''Team'')) s =
       call_t E (S_t s) ''Hello, Team!'' None
   \<and> (S_t s = T_bind i \<longrightarrow>
        translated (TemplateForm [''Hello, '', ''!''] [x]) E (vals(x := ''World'')) s =
          E i ''Hello, World!'' None \<and>
        translated (TemplateForm [''Hello, '', ''!''] [x]) E (vals(x := ''Team'')) s =
          E i ''Hello, Team!'' None)"
proof -
  have k: "finalKey [''Hello, '', ''!''] [v] = ''Hello, '' @ v @ ''!''" for v
    by (simp add: finalKey_def)
  show ?thesis
    using finalKey_eq [of parts dynamicParts]
    by (auto simp: translatedLiteral_def k)
qed

theorem template_form_key_witness:
  "S_t (createI18nextIntegration (Some 0) {}) = T_bind 0
   \<and> translated (TemplateForm [''Hello, '', ''!''] [0]) (\<lambda>i k vars. ''<'' @ k @ ''>'')
        ((\<lambda>n. '''')(0 := ''World'')) (createI18nextIntegration (Some 0) {}) = ''<Hello, World!>''
   \<and> translated (TemplateForm [''Hello, '', ''!''] [0]) (\<lambda>i k vars. ''<'' @ k @ ''>'')
        ((\<lambda>n. '''')(0 := ''Team'')) (createI18nextIntegration (Some 0) {}) = ''<Hello, Team!>''"
proof -
  have t: "S_t (createI18nextIntegration (Some 0) {}) = T_bind 0"
    by (simp add: createI18nextIntegration_def combine_t_def derivedT_of_def)
  show ?thesis
    using t template_form_key [of "[]" "[]" "[]" "\<lambda>i k vars. ''<'' @ k @ ''>''" "\<lambda>n. ''''"
        "createI18nextIntegration (Some 0) {}" 0 0]
    by simp
qed

text \<open>
  Claim C8. In the key form the current translate-function is called with the key and, for
  each variable name, the current value of its store: \<^verbatim>\<open>translated("greeting", {name})\<close>
  calls \<^verbatim>\<open>t("greeting", {name: "Ann"})\<close> while the store holds \<^verbatim>\<open>"Ann"\<close> and
  \<^verbatim>\<open>t("greeting", {name: "Ben"})\<close> once it holds \<^verbatim>\<open>"Ben"\<close>.
\<close>

theorem key_form_variables:
  "translated (KeyForm k (Some variables)) E vals s =
     call_t E (S_t s) k (Some (map (\<lambda>(name, store). (name, vals store)) variables))
   \<and> map_of (map (\<lambda>(name, store). (name, vals store)) variables) name =
       map_option vals (map_of variables name)
   \<and> translated (KeyForm k None) E vals s = call_t E (S_t s) k (Some [])
   \<and> translated (KeyForm ''greeting'' (Some [(''name'', x)])) E (vals(x := ''Ann'')) s =
       call_t E (S_t s) ''greeting'' (Some [(''name'', ''Ann'')])
   \<and> translated (KeyForm ''greeting'' (Some [(''name'', x)])) E (vals(x := ''Ben'')) s =
       call_t E (S_t s) ''greeting'' (Some [(''name'', ''Ben'')])
   \<and> (S_t s = T_bind i \<longrightarrow>
        translated (KeyForm ''greeting'' (Some [(''name'', x)])) E (vals(x := ''Ann'')) s =
          E i ''greeting'' (Some [(''name'', ''Ann'')]) \<and>
        translated (KeyForm ''greeting'' (Some [(''name'', x)])) E (vals(x := ''Ben'')) s =
          E i ''greeting'' (Some [(''name'', ''Ben'')]))"
proof -
  have m: "map_of (map (\<lambda>(name, store). (name, vals store)) variables) name =
       map_option vals (map_of variables name)"
    by (induction variables) auto
  show ?thesis
    using m by (auto simp: translatedWithVariables_def)
qed

theorem key_form_variables_witness:
  "S_t (run (createI18nextIntegration (Some 0) {0}) [Setup, Settle 0]) = T_bind 0
   \<and> translated (KeyForm ''greeting'' (Some [(''name'', 0)]))
        (\<lambda>i k vars. case vars of Some [(n, v)] \<Rightarrow> k @ '' '' @ v | _ \<Rightarrow> k)
        ((\<lambda>n. '''')(0 := ''Ann'')) (run (createI18nextIntegration (Some 0) {0}) [Setup, Settle 0])
       = ''greeting Ann''
   \<and> translated (KeyForm ''greeting'' (Some [(''name'', 0)]))
        (\<lambda>i k vars. case vars of Some [(n, v)] \<Rightarrow> k @ '' '' @ v | _ \<Rightarrow> k)
        ((\<lambda>n. '''')(0 := ''Ben'')) (run (createI18nextIntegration (Some 0) {0}) [Setup, Settle 0])
       = ''greeting Ben''"
proof -
  have t: "S_t (run (createI18nextIntegration (Some 0) {0}) [Setup, Settle 0]) = T_bind 0"
    by code_simp
  show ?thesis
    using t key_form_variables [of "[]" "[]" "\<lambda>i k vars. case vars of Some [(n, v)] \<Rightarrow> k @ '' '' @ v | _ \<Rightarrow> k"
        "\<lambda>n. ''''" "run (createI18nextIntegration (Some 0) {0}) [Setup, Settle 0]" "[]" 0 0]
    by simp
qed

subsection \<open>Readiness\<close>

lemma drop_nth_snoc: "drop_nth (length xs) (xs @ [x]) = xs"
  by (simp add: drop_nth_def)

lemma isReady_contextChanged: "S_isReady (contextChanged s) = S_isReady s"
  by (simp add: store_defs split: option.splits)

lemma inflight_contextChanged: "inflight (contextChanged s) = inflight s"
  by (simp add: store_defs split: option.splits)

lemma calls_contextChanged: "calls (contextChanged s) = calls s"
  by (simp add: store_defs split: option.splits)

lemma isReady_fold_contextChanged: "S_isReady (fold (\<lambda>l. contextChanged) ls s) = S_isReady s"
  by (induction ls arbitrary: s) (simp_all add: isReady_contextChanged)

lemma inflight_fold_contextChanged: "inflight (fold (\<lambda>l. contextChanged) ls s) = inflight s"
  by (induction ls arbitrary: s) (simp_all add: inflight_contextChanged)

lemma calls_fold_contextChanged: "calls (fold (\<lambda>l. contextChanged) ls s) = calls s"
  by (induction ls arbitrary: s) (simp_all add: calls_contextChanged)

lemma isReady_fold_reporting: "S_isReady (fold (\<lambda>l. reporting_missingKey r) ls s) = S_isReady s"
  by (induction ls arbitrary: s) (simp_all add: reporting_missingKey_def)

lemma inflight_fold_reporting: "inflight (fold (\<lambda>l. reporting_missingKey r) ls s) = inflight s"
  by (induction ls arbitrary: s) (simp_all add: reporting_missingKey_def)

lemma calls_fold_reporting: "calls (fold (\<lambda>l. reporting_missingKey r) ls s) = calls s"
  by (induction ls arbitrary: s) (simp_all add: reporting_missingKey_def)

lemma isReady_initInstanceFx: "S_isReady (initInstanceFx s) = S_isReady s"
  by (simp add: initInstanceFx_def store_defs Let_def split: option.splits)

lemma isReady_doneData: "S_isReady s \<Longrightarrow> S_isReady (initInstanceFx_doneData r s)"
  by (simp add: initInstanceFx_doneData_def setupListenersFx_def store_defs Let_def split: option.splits)

lemma isReady_destroy: "\<not> S_isReady (destroy s)"
  by (simp add: destroy_def destroyListenersFx_def store_defs Let_def split: option.splits)

lemma inflight_destroy: "inflight (destroy s) = inflight s"
  by (simp add: destroy_def destroyListenersFx_def store_defs Let_def split: option.splits)

lemma isReady_kept:
  assumes "S_isReady s" and "e \<noteq> Teardown"
  shows "S_isReady (step s e)"
proof (cases e)
  case (Settle k)
  have "S_isReady (initInstanceFx_doneData r (s\<lparr>inflight := drop_nth k (inflight s)\<rparr>))" for r
    using assms(1) by (simp add: isReady_doneData)
  then show ?thesis
    using Settle assms(1) by (simp add: settle_run_def Let_def split: initInstance_run.splits)
next
  case (Reject k)
  then show ?thesis using assms(1) by (simp add: reject_run_def split: initInstance_run.splits)
next
  case (Instance_set v)
  then show ?thesis
    using assms(1) by (simp add: instance_updates_def isReady_initInstanceFx update_t_def)
qed (use assms in \<open>simp_all add: isReady_initInstanceFx isReady_fold_contextChanged
       isReady_fold_reporting\<close>)

lemma isReady_raised_by_settle:
  assumes "\<not> S_isReady s" and "S_isReady (step s e)"
  shows "\<exists>k. e = Settle k \<and> k < length (inflight s)"
proof (cases e)
  case (Settle k)
  then show ?thesis using assms by (auto simp: settle_run_def split: if_splits)
next
  case (Reject k)
  then show ?thesis using assms by (auto simp: reject_run_def split: if_splits initInstance_run.splits)
next
  case (Instance_set v)
  then show ?thesis
    using assms by (auto simp: instance_updates_def isReady_initInstanceFx update_t_def split: if_splits)
qed (use assms in \<open>simp_all add: isReady_initInstanceFx isReady_fold_contextChanged
       isReady_fold_reporting isReady_destroy\<close>)

text \<open>
  Claim C2. When setup fires while the instance store holds an instance that reports itself
  initialised, the handler returns without suspending; once its promise is fulfilled
  readiness is true, and the only engine calls made on the way are the three \<^verbatim>\<open>on\<close>
  registrations: \<^verbatim>\<open>init()\<close> is not called.
\<close>

theorem ready_without_init:
  assumes "S_instance s = Some i" and "i \<in> isInitialized s"
  shows "inflight (step s Setup) = inflight s @ [Returned (Some (i, fresh s))]
    \<and> S_isReady (run s [Setup, Settle (length (inflight s))])
    \<and> calls (run s [Setup, Settle (length (inflight s))]) =
        calls s @ [On i MissingKey (fresh s), On i LanguageChanged (Suc (fresh s)),
                   On i Added (Suc (fresh s))]
    \<and> (Init j \<in> set (calls (run s [Setup, Settle (length (inflight s))])) \<longleftrightarrow>
         Init j \<in> set (calls s))"
proof -
  have a: "inflight (step s Setup) = inflight s @ [Returned (Some (i, fresh s))]"
    using assms by (simp add: initInstanceFx_def engine_on_def Let_def)
  have b: "calls (step s Setup) = calls s @ [On i MissingKey (fresh s)]"
    using assms by (simp add: initInstanceFx_def engine_on_def Let_def)
  have f: "fresh (step s Setup) = Suc (fresh s)"
    using assms by (simp add: initInstanceFx_def engine_on_def Let_def)
  have r: "run s [Setup, Settle (length (inflight s))] =
      initInstanceFx_doneData (Some (i, fresh s)) ((step s Setup)\<lparr>inflight := inflight s\<rparr>)"
    by (simp add: run_def settle_run_def a drop_nth_snoc del: step.simps(1))
  have c: "S_isReady (run s [Setup, Settle (length (inflight s))])"
    unfolding r
    by (simp add: initInstanceFx_doneData_def setupListenersFx_def store_defs Let_def del: step.simps(1))
  have d: "calls (run s [Setup, Settle (length (inflight s))]) =
        calls s @ [On i MissingKey (fresh s), On i LanguageChanged (Suc (fresh s)),
                   On i Added (Suc (fresh s))]"
    unfolding r
    by (simp add: initInstanceFx_doneData_def setupListenersFx_def store_defs Let_def b f
        del: step.simps(1))
  show ?thesis using a c d by simp
qed

theorem ready_without_init_witness:
  "S_instance (createI18nextIntegration (Some 0) {0}) = Some 0
   \<and> 0 \<in> isInitialized (createI18nextIntegration (Some 0) {0})
   \<and> S_isReady (run (createI18nextIntegration (Some 0) {0}) [Setup, Settle 0])
   \<and> calls (run (createI18nextIntegration (Some 0) {0}) [Setup, Settle 0]) =
       [On 0 MissingKey 0, On 0 LanguageChanged 1, On 0 Added 1]
   \<and> Init 0 \<notin> set (calls (run (createI18nextIntegration (Some 0) {0}) [Setup, Settle 0]))"
proof -
  have h: "S_instance (createI18nextIntegration (Some 0) {0}) = Some 0"
    "0 \<in> isInitialized (createI18nextIntegration (Some 0) {0})"
    by (simp_all add: createI18nextIntegration_def)
  have e: "inflight (createI18nextIntegration (Some 0) {0}) = []"
    "calls (createI18nextIntegration (Some 0) {0}) = []"
    "fresh (createI18nextIntegration (Some 0) {0}) = 0"
    by (simp_all add: createI18nextIntegration_def)
  show ?thesis
    using h ready_without_init [OF h, of 0] by (simp add: e del: step.simps)
qed

text \<open>
  Claim C10. When readiness is true and the instance store is updated from an instance to
  null, readiness stays true and the engine is not called at all, so nothing is detached:
  the handler returns null, and when that promise is fulfilled the null result is filtered
  out. No event other than teardown turns readiness from true to false.
\<close>

theorem null_instance_keeps_ready:
  assumes "S_isReady s" and "S_instance s = Some i"
  shows "S_isReady (step s (Instance_set None))
    \<and> calls (step s (Instance_set None)) = calls s
    \<and> registry (step s (Instance_set None)) = registry s
    \<and> inflight (step s (Instance_set None)) = inflight s @ [Returned None]
    \<and> S_isReady (run s [Instance_set None, Settle (length (inflight s))])
    \<and> calls (run s [Instance_set None, Settle (length (inflight s))]) = calls s
    \<and> registry (run s [Instance_set None, Settle (length (inflight s))]) = registry s
    \<and> (e \<noteq> Teardown \<longrightarrow> S_isReady (step s e))
    \<and> \<not> S_isReady (step s Teardown)"
proof -
  have u: "step s (Instance_set None) =
      s\<lparr>S_instance := None, S_derivedT := None, S_t := combine_t None (S_stanaloneT s),
        inflight := inflight s @ [Returned None]\<rparr>"
    using assms(2) by (simp add: instance_updates_def initInstanceFx_def update_t_def derivedT_of_def)
  have r: "run s [Instance_set None, Settle (length (inflight s))] =
      s\<lparr>S_instance := None, S_derivedT := None, S_t := combine_t None (S_stanaloneT s)\<rparr>"
    by (simp add: run_def u settle_run_def drop_nth_snoc initInstanceFx_doneData_def
        del: step.simps(3))
  show ?thesis
    unfolding r using assms(1) isReady_kept [OF assms(1), of e]
    by (simp add: u isReady_destroy del: step.simps(3))
qed

theorem null_instance_keeps_ready_witness:
  "S_isReady (run (createI18nextIntegration (Some 0) {0}) [Setup, Settle 0])
   \<and> S_instance (run (createI18nextIntegration (Some 0) {0}) [Setup, Settle 0]) = Some 0
   \<and> S_isReady (run (run (createI18nextIntegration (Some 0) {0}) [Setup, Settle 0])
                  [Instance_set None, Settle 0])
   \<and> calls (run (run (createI18nextIntegration (Some 0) {0}) [Setup, Settle 0])
                  [Instance_set None, Settle 0]) =
       calls (run (createI18nextIntegration (Some 0) {0}) [Setup, Settle 0])
   \<and> S_isReady (step (run (createI18nextIntegration (Some 0) {0}) [Setup, Settle 0])
                   (Emit_languageChanged 0))"
proof -
  have h: "S_isReady (run (createI18nextIntegration (Some 0) {0}) [Setup, Settle 0])"
    "S_instance (run (createI18nextIntegration (Some 0) {0}) [Setup, Settle 0]) = Some 0"
    by code_simp+
  have l: "length (inflight (run (createI18nextIntegration (Some 0) {0}) [Setup, Settle 0])) = 0"
    by code_simp
  have n: "Emit_languageChanged 0 \<noteq> Teardown" by simp
  show ?thesis
    using h n null_instance_keeps_ready [OF h, of "Emit_languageChanged 0"]
    unfolding l by blast
qed

subsection \<open>A full lifecycle on one instance\<close>

lemma calls_destroy_again: "calls (destroy (destroy s)) = calls (destroy s)"
  by (simp add: destroy_def destroyListenersFx_def split: option.splits)

lemma lifecycle_ready:
  "run (createI18nextIntegration (Some i) ini) [Setup, Settle 0] =
     \<lparr>S_instance = Some i, S_derivedT = Some (T_bind i), S_stanaloneT = Some (T_bind i),
      S_isReady = True, S_t = T_bind i, S_contextChangeListener = Some 1,
      S_missingKeyListener = Some 0, reports = [], inflight = [],
      registry = [(i, MissingKey, 0), (i, LanguageChanged, 1), (i, Added, 1)],
      calls = On i MissingKey 0 # (if i \<in> ini then [] else [Init i])
                @ [On i LanguageChanged 1, On i Added 1],
      isInitialized = ini, fresh = 2\<rparr>"
  by (simp add: run_def createI18nextIntegration_def effect_defs store_defs Let_def drop_nth_def
      combine_t_def derivedT_of_def)

subsection \<open>The standalone translate-function\<close>

lemma stanaloneT_initInstanceFx: "S_stanaloneT (initInstanceFx s) = S_stanaloneT s"
  by (simp add: initInstanceFx_def store_defs Let_def split: option.splits)

lemma stanaloneT_destroy: "S_stanaloneT (destroy s) = S_stanaloneT s"
  by (simp add: destroy_def destroyListenersFx_def store_defs Let_def split: option.splits)

lemma stanaloneT_fold_reporting:
  "S_stanaloneT (fold (\<lambda>l. reporting_missingKey r) ls s) = S_stanaloneT s"
  by (induction ls arbitrary: s) (simp_all add: reporting_missingKey_def)

lemma instance_contextChanged: "S_instance (contextChanged s) = S_instance s"
  by (simp add: store_defs split: option.splits)

lemma stanaloneT_fold_contextChanged:
  "S_stanaloneT (fold (\<lambda>l. contextChanged) ls s) =
     (if ls = [] then S_stanaloneT s
      else (case S_instance s of None \<Rightarrow> S_stanaloneT s | Some j \<Rightarrow> Some (T_bind j)))"
proof (induction ls arbitrary: s)
  case Nil
  then show ?case by simp
next
  case (Cons l ls)
  show ?case
    by (simp add: Cons.IH instance_contextChanged)
       (simp add: store_defs split: option.splits)
qed

lemma stanaloneT_doneData:
  "S_stanaloneT (initInstanceFx_doneData result s) =
     (case result of None \<Rightarrow> S_stanaloneT s | Some (i, l) \<Rightarrow> Some (T_bind i))"
  by (simp add: initInstanceFx_doneData_def setupListenersFx_def store_defs Let_def
      split: option.splits)

lemma stanaloneT_changes:
  assumes "S_stanaloneT (step s e) \<noteq> S_stanaloneT s"
  shows "(\<exists>k i l. e = Settle k \<and> k < length (inflight s) \<and>
            (inflight s ! k = Returned (Some (i, l)) \<or> inflight s ! k = AwaitingInit i l) \<and>
            S_stanaloneT (step s e) = Some (T_bind i))
       \<or> (\<exists>i j. (e = Emit_languageChanged i \<or> e = Emit_added i) \<and> S_instance s = Some j \<and>
            S_stanaloneT (step s e) = Some (T_bind j))"
proof (cases e)
  case Setup
  then show ?thesis using assms by (simp add: stanaloneT_initInstanceFx)
next
  case Teardown
  then show ?thesis using assms by (simp add: stanaloneT_destroy)
next
  case (Instance_set v)
  then show ?thesis
    using assms by (simp add: instance_updates_def stanaloneT_initInstanceFx update_t_def split: if_splits)
next
  case (Settle k)
  then show ?thesis
    using assms
    by (auto simp: settle_run_def stanaloneT_doneData Let_def
        split: if_splits initInstance_run.splits option.splits)
next
  case (Reject k)
  then show ?thesis
    using assms by (simp add: reject_run_def split: if_splits initInstance_run.splits)
next
  case (Emit_missingKey i r)
  then show ?thesis using assms by (simp add: stanaloneT_fold_reporting)
next
  case (Emit_languageChanged i)
  then show ?thesis
    using assms by (auto simp: stanaloneT_fold_contextChanged split: if_splits option.splits)
next
  case (Emit_added i)
  then show ?thesis
    using assms by (auto simp: stanaloneT_fold_contextChanged split: if_splits option.splits)
next
  case (Engine_initialized i b)
  then show ?thesis using assms by simp
qed

text \<open>
  Claim C6, as stated: firing teardown resets the standalone translate-function store to
  null. It does not: after setup, initialisation and teardown of an initialised instance the
  store still holds the function bound at initialisation, and the public function still is
  that binding.
\<close>

theorem teardown_resets_standalone_counterexample:
  "\<not> (S_stanaloneT (step (run (createI18nextIntegration (Some 0) {0}) [Setup, Settle 0]) Teardown)
        = None)
   \<and> S_t (step (run (createI18nextIntegration (Some 0) {0}) [Setup, Settle 0]) Teardown) = T_bind 0"
  by code_simp

text \<open>
  Claim C6, amended. The standalone translate-function store changes only when the promise
  of an initialisation is fulfilled with an instance (it then holds that instance's bound
  function) or when a context-change notification arrives while the instance store holds an
  instance (it then holds the current instance's bound function). Teardown leaves the store
  as it is.
\<close>

theorem standalone_set_only_by_init_and_rebind:
  "S_stanaloneT (step s Teardown) = S_stanaloneT s
   \<and> (S_stanaloneT (step s e) \<noteq> S_stanaloneT s \<longrightarrow>
        (\<exists>k i l. e = Settle k \<and> k < length (inflight s) \<and>
            (inflight s ! k = Returned (Some (i, l)) \<or> inflight s ! k = AwaitingInit i l) \<and>
            S_stanaloneT (step s e) = Some (T_bind i))
      \<or> (\<exists>i j. (e = Emit_languageChanged i \<or> e = Emit_added i) \<and> S_instance s = Some j \<and>
            S_stanaloneT (step s e) = Some (T_bind j)))"
  using stanaloneT_changes [of s e] by (simp add: stanaloneT_destroy)

theorem standalone_set_only_by_init_and_rebind_witness:
  "S_stanaloneT (step (step (createI18nextIntegration (Some 0) {}) Setup) (Settle 0))
     \<noteq> S_stanaloneT (step (createI18nextIntegration (Some 0) {}) Setup)
   \<and> S_stanaloneT (step (step (createI18nextIntegration (Some 0) {}) Setup) (Settle 0))
       = Some (T_bind 0)
   \<and> S_stanaloneT (step (step (step (createI18nextIntegration (Some 0) {}) Setup) (Settle 0)) Teardown)
       = Some (T_bind 0)"
proof -
  have n: "S_stanaloneT (step (step (createI18nextIntegration (Some 0) {}) Setup) (Settle 0))
     \<noteq> S_stanaloneT (step (createI18nextIntegration (Some 0) {}) Setup)"
    by code_simp
  have i: "inflight (step (createI18nextIntegration (Some 0) {}) Setup) ! 0 = AwaitingInit 0 0"
    by code_simp
  have "S_stanaloneT (step (step (createI18nextIntegration (Some 0) {}) Setup) (Settle 0))
       = Some (T_bind 0)"
    using n i standalone_set_only_by_init_and_rebind
      [of "step (createI18nextIntegration (Some 0) {}) Setup" "Settle 0"]
    by auto
  moreover have "S_stanaloneT (step (step (step (createI18nextIntegration (Some 0) {}) Setup) (Settle 0)) Teardown)
       = S_stanaloneT (step (step (createI18nextIntegration (Some 0) {}) Setup) (Settle 0))"
    using standalone_set_only_by_init_and_rebind
      [of "step (step (createI18nextIntegration (Some 0) {}) Setup) (Settle 0)"]
    by blast
  ultimately show ?thesis using n by simp
qed

subsection \<open>Switching instances\<close>

lemma calls_initInstanceFx:
  "calls (initInstanceFx s) =
     calls s @ (case S_instance s of
                  None \<Rightarrow> []
                | Some j \<Rightarrow> On j MissingKey (fresh s) # (if j \<in> isInitialized s then [] else [Init j]))"
  by (simp add: initInstanceFx_def engine_on_def engine_init_def Let_def split: option.splits)

lemma registry_initInstanceFx:
  "registry (initInstanceFx s) =
     registry s @ (case S_instance s of None \<Rightarrow> [] | Some j \<Rightarrow> [(j, MissingKey, fresh s)])"
  by (simp add: initInstanceFx_def engine_on_def engine_init_def Let_def split: option.splits)

lemma calls_destroy:
  "calls (destroy s) =
     calls s @ (case S_instance s of
                  None \<Rightarrow> []
                | Some i \<Rightarrow>
                    (case S_contextChangeListener s of
                       None \<Rightarrow> []
                     | Some c \<Rightarrow> [Off i LanguageChanged c, Off i Added c])
                    @ (case S_missingKeyListener s of None \<Rightarrow> [] | Some m \<Rightarrow> [Off i MissingKey m]))"
  by (simp add: destroy_def destroyListenersFx_def engine_off_def Let_def split: option.splits)

lemma offs_doneData:
  "filter is_Off (calls (initInstanceFx_doneData result s)) = filter is_Off (calls s)"
  by (simp add: initInstanceFx_doneData_def setupListenersFx_def store_defs Let_def
      split: option.splits)

lemma offs_kept:
  assumes "e \<noteq> Teardown"
  shows "filter is_Off (calls (step s e)) = filter is_Off (calls s)"
proof (cases e)
  case Setup
  then show ?thesis by (simp add: calls_initInstanceFx split: option.splits)
next
  case Teardown
  then show ?thesis using assms by simp
next
  case (Instance_set v)
  then show ?thesis
    by (simp add: instance_updates_def calls_initInstanceFx update_t_def split: option.splits)
next
  case (Settle k)
  then show ?thesis
    by (simp add: settle_run_def offs_doneData Let_def split: initInstance_run.splits)
next
  case (Reject k)
  then show ?thesis by (simp add: reject_run_def split: initInstance_run.splits)
next
  case (Emit_missingKey i r)
  then show ?thesis by (simp add: calls_fold_reporting)
next
  case (Emit_languageChanged i)
  then show ?thesis by (simp add: calls_fold_contextChanged)
next
  case (Emit_added i)
  then show ?thesis by (simp add: calls_fold_contextChanged)
next
  case (Engine_initialized i b)
  then show ?thesis by simp
qed

text \<open>
  Claim C9, as stated: when the instance store switches from one instance to another, the
  listeners bound to the previous instance are detached, and detachment goes to the instance
  they were attached to. It does not. After a full lifecycle on instance 0, a switch to
  instance 1, its initialisation and teardown, all three registrations on instance 0 are
  still in place and every \<^verbatim>\<open>off\<close> call went to instance 1. When teardown fires right
  after the switch, the handles made for instance 0 are passed to \<^verbatim>\<open>off\<close> of instance 1.
\<close>

theorem switch_detaches_previous_counterexample:
  "registry (run (createI18nextIntegration (Some 0) {0, 1})
               [Setup, Settle 0, Instance_set (Some 1), Settle 0, Teardown]) =
     [(0, MissingKey, 0), (0, LanguageChanged, 1), (0, Added, 1)]
   \<and> filter is_Off (calls (run (createI18nextIntegration (Some 0) {0, 1})
               [Setup, Settle 0, Instance_set (Some 1), Settle 0, Teardown])) =
     [Off 1 LanguageChanged 3, Off 1 Added 3, Off 1 MissingKey 2]
   \<and> filter is_Off (calls (run (createI18nextIntegration (Some 0) {0, 1})
               [Setup, Settle 0, Instance_set (Some 1), Teardown])) =
     [Off 1 LanguageChanged 1, Off 1 Added 1, Off 1 MissingKey 0]"
  by code_simp

text \<open>
  Claim C9, amended. An update of the instance store detaches nothing: it only starts the
  initialisation of the new instance, which registers a missing-key listener on it, and
  every registration made before stays. Listeners are detached by teardown alone, and its
  \<^verbatim>\<open>off\<close> calls go to the instance the store holds when teardown fires, with the handles
  the two listener stores hold at that moment.
\<close>

theorem detach_only_on_teardown_by_current_instance:
  "calls (step s (Instance_set v)) =
     calls s @ (if v = S_instance s then []
                else (case v of
                        None \<Rightarrow> []
                      | Some j \<Rightarrow>
                          On j MissingKey (fresh s) # (if j \<in> isInitialized s then [] else [Init j])))
   \<and> registry (step s (Instance_set v)) =
       registry s @ (if v = S_instance s then []
                     else (case v of None \<Rightarrow> [] | Some j \<Rightarrow> [(j, MissingKey, fresh s)]))
   \<and> calls (step s Teardown) =
       calls s @ (case S_instance s of
                    None \<Rightarrow> []
                  | Some i \<Rightarrow>
                      (case S_contextChangeListener s of
                         None \<Rightarrow> []
                       | Some c \<Rightarrow> [Off i LanguageChanged c, Off i Added c])
                      @ (case S_missingKeyListener s of None \<Rightarrow> [] | Some m \<Rightarrow> [Off i MissingKey m]))
   \<and> (e \<noteq> Teardown \<longrightarrow> filter is_Off (calls (step s e)) = filter is_Off (calls s))"
proof -
  have a: "calls (step s (Instance_set v)) =
     calls s @ (if v = S_instance s then []
                else (case v of
                        None \<Rightarrow> []
                      | Some j \<Rightarrow>
                          On j MissingKey (fresh s) # (if j \<in> isInitialized s then [] else [Init j])))"
    by (simp add: instance_updates_def calls_initInstanceFx update_t_def split: option.splits)
  have b: "registry (step s (Instance_set v)) =
       registry s @ (if v = S_instance s then []
                     else (case v of None \<Rightarrow> [] | Some j \<Rightarrow> [(j, MissingKey, fresh s)]))"
    by (simp add: instance_updates_def registry_initInstanceFx update_t_def split: option.splits)
  show ?thesis
    using a b offs_kept [of e s] by (simp add: calls_destroy)
qed

theorem detach_only_on_teardown_by_current_instance_witness:
  "Instance_set (Some 1) \<noteq> Teardown
   \<and> filter is_Off (calls (step (run (createI18nextIntegration (Some 0) {0, 1}) [Setup, Settle 0])
                            (Instance_set (Some 1)))) = []
   \<and> registry (step (run (createI18nextIntegration (Some 0) {0, 1}) [Setup, Settle 0])
                 (Instance_set (Some 1))) =
       [(0, MissingKey, 0), (0, LanguageChanged, 1), (0, Added, 1), (1, MissingKey, 2)]
   \<and> calls (step (step (run (createI18nextIntegration (Some 0) {0, 1}) [Setup, Settle 0])
                    (Instance_set (Some 1))) Teardown) =
       [On 0 MissingKey 0, On 0 LanguageChanged 1, On 0 Added 1, On 1 MissingKey 2,
        Off 1 LanguageChanged 1, Off 1 Added 1, Off 1 MissingKey 0]"
proof -
  have s0: "run (createI18nextIntegration (Some 0) {0, 1}) [Setup, Settle 0] =
     \<lparr>S_instance = Some 0, S_derivedT = Some (T_bind 0), S_stanaloneT = Some (T_bind 0),
      S_isReady = True, S_t = T_bind 0, S_contextChangeListener = Some 1,
      S_missingKeyListener = Some 0, reports = [], inflight = [],
      registry = [(0, MissingKey, 0), (0, LanguageChanged, 1), (0, Added, 1)],
      calls = [On 0 MissingKey 0, On 0 LanguageChanged 1, On 0 Added 1],
      isInitialized = {0, 1}, fresh = 2\<rparr>"
    using lifecycle_ready [of 0 "{0, 1}"] by simp
  have n: "Instance_set (Some 1) \<noteq> Teardown" by simp
  have a: "filter is_Off (calls (step (run (createI18nextIntegration (Some 0) {0, 1}) [Setup, Settle 0])
                            (Instance_set (Some 1)))) = []"
    using n detach_only_on_teardown_by_current_instance
      [of "run (createI18nextIntegration (Some 0) {0, 1}) [Setup, Settle 0]" "Some 1"
          "Instance_set (Some 1)"]
    by (simp add: s0 del: step.simps One_nat_def)
  have b: "registry (step (run (createI18nextIntegration (Some 0) {0, 1}) [Setup, Settle 0])
                 (Instance_set (Some 1))) =
       [(0, MissingKey, 0), (0, LanguageChanged, 1), (0, Added, 1), (1, MissingKey, 2)]"
    using detach_only_on_teardown_by_current_instance
      [of "run (createI18nextIntegration (Some 0) {0, 1}) [Setup, Settle 0]" "Some 1"]
    by (simp add: s0 del: step.simps One_nat_def)
  have c: "calls (step (step (run (createI18nextIntegration (Some 0) {0, 1}) [Setup, Settle 0])
                    (Instance_set (Some 1))) Teardown) =
       [On 0 MissingKey 0, On 0 LanguageChanged 1, On 0 Added 1, On 1 MissingKey 2,
        Off 1 LanguageChanged 1, Off 1 Added 1, Off 1 MissingKey 0]"
    unfolding s0 by code_simp
  show ?thesis using n a b c by blast
qed

subsection \<open>Readiness while an initialisation is in flight\<close>

lemma ready_needs_a_run:
  assumes "\<not> S_isReady s" and "S_isReady (step s e)"
  shows "\<exists>k. e = Settle k \<and> k < length (inflight s) \<and> inflight s ! k \<noteq> Returned None"
proof -
  obtain k where k: "e = Settle k" "k < length (inflight s)"
    using isReady_raised_by_settle [OF assms] by blast
  have "inflight s ! k \<noteq> Returned None"
  proof
    assume "inflight s ! k = Returned None"
    then have "S_isReady (step s e) = S_isReady s"
      using k by (simp add: settle_run_def initInstanceFx_doneData_def)
    then show False using assms by simp
  qed
  then show ?thesis using k by blast
qed

lemma not_ready_step: "\<not> S_isReady s \<Longrightarrow> \<not> is_Settle e \<Longrightarrow> \<not> S_isReady (step s e)"
  using isReady_raised_by_settle [of s e] by auto

lemma not_ready_run: "\<not> S_isReady s \<Longrightarrow> \<not> list_ex is_Settle es \<Longrightarrow> \<not> S_isReady (run s es)"
  unfolding run_def by (induction es arbitrary: s) (simp_all add: not_ready_step)

lemma inflight_initInstanceFx: "\<exists>r. inflight (initInstanceFx s) = inflight s @ [r]"
  by (simp add: initInstanceFx_def engine_on_def engine_init_def Let_def split: option.splits)

lemma inflight_grows_step:
  assumes "\<not> ends_run e"
  shows "\<exists>rs. inflight (step s e) = inflight s @ rs"
proof (cases e)
  case Setup
  then show ?thesis using inflight_initInstanceFx [of s] by auto
next
  case Teardown
  then show ?thesis by (simp add: inflight_destroy)
next
  case (Instance_set v)
  show ?thesis
  proof (cases "v = S_instance s")
    case True
    then show ?thesis using Instance_set by (simp add: instance_updates_def)
  next
    case False
    then show ?thesis
      using Instance_set
        inflight_initInstanceFx [of "update_t (s\<lparr>S_instance := v, S_derivedT := derivedT_of v\<rparr>)"]
      by (auto simp: instance_updates_def update_t_def)
  qed
next
  case (Settle k)
  then show ?thesis using assms by simp
next
  case (Reject k)
  then show ?thesis using assms by simp
next
  case (Emit_missingKey i r)
  then show ?thesis by (simp add: inflight_fold_reporting)
next
  case (Emit_languageChanged i)
  then show ?thesis by (simp add: inflight_fold_contextChanged)
next
  case (Emit_added i)
  then show ?thesis by (simp add: inflight_fold_contextChanged)
next
  case (Engine_initialized i b)
  then show ?thesis by simp
qed

lemma inflight_grows_run:
  "\<not> list_ex ends_run es \<Longrightarrow> \<exists>rs. inflight (run s es) = inflight s @ rs"
proof (induction es arbitrary: s)
  case Nil
  then show ?case by (simp add: run_def)
next
  case (Cons e es)
  obtain rs where a: "inflight (step s e) = inflight s @ rs"
    using Cons.prems inflight_grows_step [of e s] by auto
  obtain rs' where "inflight (run (step s e) es) = inflight (step s e) @ rs'"
    using Cons.IH [of "step s e"] Cons.prems by auto
  then show ?case using a by (simp add: run_def)
qed

lemma isReady_settle_run:
  assumes "k < length (inflight s)" and "inflight s ! k = AwaitingInit i l"
  shows "S_isReady (settle_run k s)"
  using assms
  by (simp add: settle_run_def initInstanceFx_doneData_def setupListenersFx_def store_defs Let_def)

text \<open>
  Claim C3, as stated: after setup on an instance that is not initialised, readiness becomes
  true only after that instance's \<^verbatim>\<open>init()\<close> has resolved and is false all through the
  pending period. It is not: setup fires on the uninitialised instance 0, the instance store
  is switched to the initialised instance 1, and the promise of that second run is
  fulfilled. Readiness is then true while \<^verbatim>\<open>init()\<close> of instance 0, called once, is still
  suspended.
\<close>

theorem ready_during_pending_init_counterexample:
  "S_isReady (run (createI18nextIntegration (Some 0) {1}) [Setup, Instance_set (Some 1), Settle 1])
   \<and> inflight (run (createI18nextIntegration (Some 0) {1}) [Setup, Instance_set (Some 1), Settle 1])
       = [AwaitingInit 0 0]
   \<and> calls (run (createI18nextIntegration (Some 0) {1}) [Setup, Instance_set (Some 1), Settle 1])
       = [On 0 MissingKey 0, Init 0, On 1 MissingKey 1, On 1 LanguageChanged 2, On 1 Added 2]"
  by code_simp

text \<open>
  Claim C3, amended. When setup fires while readiness is false and the instance store holds
  an instance that is not initialised, the handler calls \<^verbatim>\<open>init()\<close> and suspends.
  Readiness then stays false for as long as no promise of an initialisation run is
  fulfilled, whatever else happens (further setups, instance updates, teardown, engine
  notifications, a rejected \<^verbatim>\<open>init()\<close>). For as long as no run has settled or been
  rejected, this run is still suspended, and \<^verbatim>\<open>init()\<close> resolving makes readiness true.
  In any state, readiness turns true only when the promise of a run that did not return null
  is fulfilled; that run need not be the one of this instance.
\<close>

theorem ready_waits_for_a_fulfilled_run:
  assumes "S_instance s = Some i" and "i \<notin> isInitialized s" and "\<not> S_isReady s"
  shows "calls (step s Setup) = calls s @ [On i MissingKey (fresh s), Init i]
    \<and> inflight (step s Setup) = inflight s @ [AwaitingInit i (fresh s)]
    \<and> (\<not> list_ex is_Settle es \<longrightarrow> \<not> S_isReady (run (step s Setup) es))
    \<and> (\<not> list_ex ends_run es \<longrightarrow>
         length (inflight s) < length (inflight (run (step s Setup) es)) \<and>
         inflight (run (step s Setup) es) ! length (inflight s) = AwaitingInit i (fresh s) \<and>
         S_isReady (step (run (step s Setup) es) (Settle (length (inflight s)))))
    \<and> (\<not> S_isReady s' \<and> S_isReady (step s' e) \<longrightarrow>
         (\<exists>k. e = Settle k \<and> k < length (inflight s') \<and> inflight s' ! k \<noteq> Returned None))"
proof -
  have a: "calls (step s Setup) = calls s @ [On i MissingKey (fresh s), Init i]"
    using assms(1,2) by (simp add: initInstanceFx_def engine_on_def engine_init_def Let_def)
  have b: "inflight (step s Setup) = inflight s @ [AwaitingInit i (fresh s)]"
    using assms(1,2) by (simp add: initInstanceFx_def engine_on_def engine_init_def Let_def)
  have n: "\<not> S_isReady (step s Setup)"
    using assms(3) by (simp add: isReady_initInstanceFx)
  have c: "\<not> S_isReady (run (step s Setup) es)" if "\<not> list_ex is_Settle es"
    using n that by (rule not_ready_run)
  have d: "length (inflight s) < length (inflight (run (step s Setup) es)) \<and>
         inflight (run (step s Setup) es) ! length (inflight s) = AwaitingInit i (fresh s) \<and>
         S_isReady (step (run (step s Setup) es) (Settle (length (inflight s))))"
    if nr: "\<not> list_ex ends_run es"
  proof -
    obtain rs where "inflight (run (step s Setup) es) = inflight (step s Setup) @ rs"
      using inflight_grows_run [OF nr, of "step s Setup"] by blast
    then have r: "inflight (run (step s Setup) es) = inflight s @ AwaitingInit i (fresh s) # rs"
      unfolding b by simp
    have l: "length (inflight s) < length (inflight (run (step s Setup) es))"
      unfolding r by simp
    have m: "inflight (run (step s Setup) es) ! length (inflight s) = AwaitingInit i (fresh s)"
      unfolding r by simp
    show ?thesis
      using l m isReady_settle_run [OF l m] by (simp del: step.simps(1))
  qed
  show ?thesis
    using a b c d ready_needs_a_run [of s' e] by blast
qed

theorem ready_waits_for_a_fulfilled_run_witness:
  "S_instance (createI18nextIntegration (Some 0) {}) = Some 0
   \<and> 0 \<notin> isInitialized (createI18nextIntegration (Some 0) {})
   \<and> \<not> S_isReady (createI18nextIntegration (Some 0) {})
   \<and> \<not> list_ex ends_run [Emit_languageChanged 0, Setup, Teardown, Instance_set (Some 1)]
   \<and> \<not> S_isReady (run (step (createI18nextIntegration (Some 0) {}) Setup)
                    [Emit_languageChanged 0, Setup, Teardown, Instance_set (Some 1)])
   \<and> S_isReady (step (run (step (createI18nextIntegration (Some 0) {}) Setup)
                    [Emit_languageChanged 0, Setup, Teardown, Instance_set (Some 1)]) (Settle 0))"
proof -
  have h: "S_instance (createI18nextIntegration (Some 0) {}) = Some 0"
    "0 \<notin> isInitialized (createI18nextIntegration (Some 0) {})"
    "\<not> S_isReady (createI18nextIntegration (Some 0) {})"
    by (simp_all add: createI18nextIntegration_def)
  have e: "\<not> list_ex ends_run [Emit_languageChanged 0, Setup, Teardown, Instance_set (Some 1)]"
    "\<not> list_ex is_Settle [Emit_languageChanged 0, Setup, Teardown, Instance_set (Some 1)]"
    by simp_all
  have l: "length (inflight (createI18nextIntegration (Some 0) {})) = 0"
    by (simp add: createI18nextIntegration_def)
  show ?thesis
    using h e ready_waits_for_a_fulfilled_run
      [OF h, of "[Emit_languageChanged 0, Setup, Teardown, Instance_set (Some 1)]"]
    unfolding l by blast
qed

subsection \<open>Teardown\<close>

lemma wiring_contextChanged: "wiring (contextChanged s) = wiring s"
  by (simp add: wiring_def store_defs split: option.splits)

lemma wiring_reporting: "wiring (reporting_missingKey r s) = wiring s"
  by (simp add: wiring_def store_defs)

lemma wiring_fold_contextChanged: "wiring (fold (\<lambda>l. contextChanged) ls s) = wiring s"
  by (induction ls arbitrary: s) (simp_all add: wiring_contextChanged)

lemma wiring_fold_reporting: "wiring (fold (\<lambda>l. reporting_missingKey r) ls s) = wiring s"
  by (induction ls arbitrary: s) (simp_all add: wiring_reporting)

lemma wiring_engine_event: "engine_event e \<Longrightarrow> wiring (step s e) = wiring s"
  by (cases e) (simp_all add: wiring_fold_contextChanged wiring_fold_reporting, simp add: wiring_def)

lemma wiring_engine_events: "list_all engine_event es \<Longrightarrow> wiring (run s es) = wiring s"
  unfolding run_def by (induction es arbitrary: s) (simp_all add: wiring_engine_event)

lemma calls_destroy_held:
  "calls (destroy s) = calls s @ map (\<lambda>(i, c, l). Off i c l) (held s)"
  by (simp add: calls_destroy held_def split: option.splits)

lemma registry_destroy_held: "registry (destroy s) = fold removeAll (held s) (registry s)"
  by (simp add: destroy_def destroyListenersFx_def engine_off_def held_def Let_def
      split: option.splits)

lemma registry_destroy_again: "registry (destroy (destroy s)) = registry (destroy s)"
  by (simp add: destroy_def destroyListenersFx_def split: option.splits)

lemma set_fold_removeAll: "set (fold removeAll xs ys) = set ys - set xs"
  by (induction xs arbitrary: ys) auto

lemma distinct_held: "distinct (held s)"
  by (simp add: held_def split: option.splits)

lemma lifecycle_wiring:
  assumes "list_all engine_event ns1" and "list_all engine_event ns2"
  shows "wiring (lifecycle j ini ns1 ns2) =
     (Some j, Some 1, Some 0, True, [],
      [(j, MissingKey, 0), (j, LanguageChanged, 1), (j, Added, 1)],
      On j MissingKey 0 # (if j \<in> ini then [] else [Init j]) @ [On j LanguageChanged 1, On j Added 1],
      2)"
proof -
  let ?c = "createI18nextIntegration (Some j) ini"
  let ?r = "if j \<in> ini then Returned (Some (j, 0)) else AwaitingInit j 0"
  have w1: "wiring (initInstanceFx ?c) =
     (Some j, None, None, False, [?r], [(j, MissingKey, 0)],
      On j MissingKey 0 # (if j \<in> ini then [] else [Init j]), 1)"
    by (simp add: wiring_def createI18nextIntegration_def initInstanceFx_def engine_on_def
        engine_init_def Let_def)
  define x where "x = run (initInstanceFx ?c) ns1"
  have wx: "wiring x = wiring (initInstanceFx ?c)"
    unfolding x_def using assms(1) by (rule wiring_engine_events)
  have fx: "S_instance x = Some j" "inflight x = [?r]" "registry x = [(j, MissingKey, 0)]"
    "calls x = On j MissingKey 0 # (if j \<in> ini then [] else [Init j])" "fresh x = 1"
    using wx unfolding w1 by (simp_all add: wiring_def)
  have wy: "wiring (settle_run 0 x) =
     (Some j, Some 1, Some 0, True, [],
      [(j, MissingKey, 0), (j, LanguageChanged, 1), (j, Added, 1)],
      On j MissingKey 0 # (if j \<in> ini then [] else [Init j]) @ [On j LanguageChanged 1, On j Added 1],
      2)"
    by (simp add: wiring_def settle_run_def drop_nth_def initInstanceFx_doneData_def
        setupListenersFx_def store_defs Let_def fx)
  have "lifecycle j ini ns1 ns2 = run (settle_run 0 x) ns2"
    by (simp add: lifecycle_def run_def x_def)
  then show ?thesis
    using wiring_engine_events [OF assms(2), of "settle_run 0 x"] wy by simp
qed

text \<open>
  Claim C4, as stated: firing teardown after readiness is true causes exactly one detach call
  for each listener that was attached. It does not in two states with readiness true. When
  the instance store has been set to null, teardown makes no \<^verbatim>\<open>off\<close> call and the three
  listeners stay registered. After two setups on one instance, teardown detaches the
  listeners of the second run only, and those of the first stay registered.
\<close>

theorem teardown_detaches_attached_counterexample:
  "S_isReady (run (createI18nextIntegration (Some 0) {0}) [Setup, Settle 0, Instance_set None])
   \<and> filter is_Off (calls (run (createI18nextIntegration (Some 0) {0})
                               [Setup, Settle 0, Instance_set None, Teardown])) = []
   \<and> registry (run (createI18nextIntegration (Some 0) {0})
                  [Setup, Settle 0, Instance_set None, Teardown]) =
       [(0, MissingKey, 0), (0, LanguageChanged, 1), (0, Added, 1)]
   \<and> S_isReady (run (createI18nextIntegration (Some 0) {0}) [Setup, Setup, Settle 0, Settle 0])
   \<and> filter is_Off (calls (run (createI18nextIntegration (Some 0) {0})
                               [Setup, Setup, Settle 0, Settle 0, Teardown])) =
       [Off 0 LanguageChanged 3, Off 0 Added 3, Off 0 MissingKey 1]
   \<and> registry (run (createI18nextIntegration (Some 0) {0})
                  [Setup, Setup, Settle 0, Settle 0, Teardown]) =
       [(0, MissingKey, 0), (0, LanguageChanged, 2), (0, Added, 2)]"
  by code_simp

text \<open>
  Claim C4, amended. Firing teardown sets readiness to false, in every state. It causes
  exactly one \<^verbatim>\<open>off\<close> call for each registration whose handle the two listener stores
  hold (\<^verbatim>\<open>languageChanged\<close> and \<^verbatim>\<open>added\<close> for the context-change handle,
  \<^verbatim>\<open>missingKey\<close> for the missing-key handle), on the instance the instance store holds at
  that moment, and none when that store holds null; listeners whose handle is not held are
  left attached. Both listener stores are null afterwards, so a second consecutive teardown
  makes no detach call. Whenever every listener attached is one whose handle is held,
  teardown leaves none attached; this is so after one setup and its initialisation on an
  instance that stays in the store, with engine notifications only in between: the three
  listeners attached are detached once each.
\<close>

theorem teardown_detaches_held_handles:
  "\<not> S_isReady (step s Teardown)
   \<and> calls (step s Teardown) = calls s @ map (\<lambda>(i, c, l). Off i c l) (held s)
   \<and> registry (step s Teardown) = fold removeAll (held s) (registry s)
   \<and> distinct (held s)
   \<and> S_contextChangeListener (step s Teardown) = None
   \<and> S_missingKeyListener (step s Teardown) = None
   \<and> held (step s Teardown) = []
   \<and> calls (run s [Teardown, Teardown]) = calls (step s Teardown)
   \<and> registry (run s [Teardown, Teardown]) = registry (step s Teardown)
   \<and> (set (registry s) \<subseteq> set (held s) \<longrightarrow> registry (step s Teardown) = [])
   \<and> (list_all engine_event ns1 \<and> list_all engine_event ns2 \<longrightarrow>
        S_isReady (lifecycle j ini ns1 ns2)
        \<and> registry (lifecycle j ini ns1 ns2) =
            [(j, MissingKey, 0), (j, LanguageChanged, 1), (j, Added, 1)]
        \<and> held (lifecycle j ini ns1 ns2) =
            [(j, LanguageChanged, 1), (j, Added, 1), (j, MissingKey, 0)]
        \<and> filter is_Off (calls (lifecycle j ini ns1 ns2)) = []
        \<and> calls (step (lifecycle j ini ns1 ns2) Teardown) =
            calls (lifecycle j ini ns1 ns2)
              @ [Off j LanguageChanged 1, Off j Added 1, Off j MissingKey 0]
        \<and> registry (step (lifecycle j ini ns1 ns2) Teardown) = [])"
proof -
  have a: "\<not> S_isReady (step s Teardown)"
    by (simp add: isReady_destroy)
  have b: "calls (step s Teardown) = calls s @ map (\<lambda>(i, c, l). Off i c l) (held s)"
    "registry (step s Teardown) = fold removeAll (held s) (registry s)"
    by (simp_all add: calls_destroy_held registry_destroy_held)
  have c: "S_contextChangeListener (step s Teardown) = None"
    "S_missingKeyListener (step s Teardown) = None"
    by (simp_all add: destroy_def)
  have d: "held (step s Teardown) = []"
    using c by (simp add: held_def split: option.splits)
  have e: "calls (run s [Teardown, Teardown]) = calls (step s Teardown)"
    "registry (run s [Teardown, Teardown]) = registry (step s Teardown)"
    by (simp_all add: run_def calls_destroy_again registry_destroy_again)
  have f: "registry (step s Teardown) = []" if "set (registry s) \<subseteq> set (held s)"
  proof -
    have "set (registry (step s Teardown)) = {}"
      using that by (simp add: registry_destroy_held set_fold_removeAll)
    then show ?thesis by simp
  qed
  have g: "S_isReady (lifecycle j ini ns1 ns2)
        \<and> registry (lifecycle j ini ns1 ns2) =
            [(j, MissingKey, 0), (j, LanguageChanged, 1), (j, Added, 1)]
        \<and> held (lifecycle j ini ns1 ns2) =
            [(j, LanguageChanged, 1), (j, Added, 1), (j, MissingKey, 0)]
        \<and> filter is_Off (calls (lifecycle j ini ns1 ns2)) = []
        \<and> calls (step (lifecycle j ini ns1 ns2) Teardown) =
            calls (lifecycle j ini ns1 ns2)
              @ [Off j LanguageChanged 1, Off j Added 1, Off j MissingKey 0]
        \<and> registry (step (lifecycle j ini ns1 ns2) Teardown) = []"
    if n: "list_all engine_event ns1" "list_all engine_event ns2"
  proof -
    have w: "S_instance (lifecycle j ini ns1 ns2) = Some j"
      "S_contextChangeListener (lifecycle j ini ns1 ns2) = Some 1"
      "S_missingKeyListener (lifecycle j ini ns1 ns2) = Some 0"
      "S_isReady (lifecycle j ini ns1 ns2)"
      "registry (lifecycle j ini ns1 ns2) =
         [(j, MissingKey, 0), (j, LanguageChanged, 1), (j, Added, 1)]"
      "calls (lifecycle j ini ns1 ns2) =
         On j MissingKey 0 # (if j \<in> ini then [] else [Init j])
           @ [On j LanguageChanged 1, On j Added 1]"
      using lifecycle_wiring [OF n, of j ini] by (simp_all add: wiring_def)
    have h: "held (lifecycle j ini ns1 ns2) =
        [(j, LanguageChanged, 1), (j, Added, 1), (j, MissingKey, 0)]"
      by (simp add: held_def w)
    show ?thesis
      by (simp add: calls_destroy_held registry_destroy_held h w(4,5)) (simp add: w(6))
  qed
  show ?thesis
    using a b c d e f g distinct_held [of s] by blast
qed

theorem teardown_detaches_held_handles_witness:
  "list_all engine_event [Emit_missingKey 0 \<lparr>lngs = [], namespace = [], key = ''a'', res = ''a''\<rparr>]
   \<and> list_all engine_event [Emit_languageChanged 0, Engine_initialized 0 True]
   \<and> S_isReady (lifecycle 0 {}
        [Emit_missingKey 0 \<lparr>lngs = [], namespace = [], key = ''a'', res = ''a''\<rparr>]
        [Emit_languageChanged 0, Engine_initialized 0 True])
   \<and> set (registry (lifecycle 0 {}
        [Emit_missingKey 0 \<lparr>lngs = [], namespace = [], key = ''a'', res = ''a''\<rparr>]
        [Emit_languageChanged 0, Engine_initialized 0 True]))
       \<subseteq> set (held (lifecycle 0 {}
        [Emit_missingKey 0 \<lparr>lngs = [], namespace = [], key = ''a'', res = ''a''\<rparr>]
        [Emit_languageChanged 0, Engine_initialized 0 True]))
   \<and> registry (step (lifecycle 0 {}
        [Emit_missingKey 0 \<lparr>lngs = [], namespace = [], key = ''a'', res = ''a''\<rparr>]
        [Emit_languageChanged 0, Engine_initialized 0 True]) Teardown) = []
   \<and> calls (run (lifecycle 0 {}
        [Emit_missingKey 0 \<lparr>lngs = [], namespace = [], key = ''a'', res = ''a''\<rparr>]
        [Emit_languageChanged 0, Engine_initialized 0 True]) [Teardown, Teardown]) =
       calls (lifecycle 0 {}
        [Emit_missingKey 0 \<lparr>lngs = [], namespace = [], key = ''a'', res = ''a''\<rparr>]
        [Emit_languageChanged 0, Engine_initialized 0 True])
         @ [Off 0 LanguageChanged 1, Off 0 Added 1, Off 0 MissingKey 0]"
proof -
  define ns1 where "ns1 = [Emit_missingKey 0 \<lparr>lngs = [], namespace = [], key = ''a'', res = ''a''\<rparr>]"
  define ns2 where "ns2 = [Emit_languageChanged 0, Engine_initialized 0 True]"
  have n: "list_all engine_event ns1" "list_all engine_event ns2"
    by (simp_all add: ns1_def ns2_def)
  note t = teardown_detaches_held_handles [of "lifecycle 0 {} ns1 ns2" ns1 ns2 0 "{}"]
  have a: "S_isReady (lifecycle 0 {} ns1 ns2)"
    "registry (lifecycle 0 {} ns1 ns2) = [(0, MissingKey, 0), (0, LanguageChanged, 1), (0, Added, 1)]"
    "held (lifecycle 0 {} ns1 ns2) = [(0, LanguageChanged, 1), (0, Added, 1), (0, MissingKey, 0)]"
    "calls (step (lifecycle 0 {} ns1 ns2) Teardown) =
       calls (lifecycle 0 {} ns1 ns2) @ [Off 0 LanguageChanged 1, Off 0 Added 1, Off 0 MissingKey 0]"
    using n t by blast+
  have b: "set (registry (lifecycle 0 {} ns1 ns2)) \<subseteq> set (held (lifecycle 0 {} ns1 ns2))"
    unfolding a by simp
  have c: "registry (step (lifecycle 0 {} ns1 ns2) Teardown) = []"
    using b t by blast
  have d: "calls (run (lifecycle 0 {} ns1 ns2) [Teardown, Teardown]) =
       calls (lifecycle 0 {} ns1 ns2) @ [Off 0 LanguageChanged 1, Off 0 Added 1, Off 0 MissingKey 0]"
    using t a(4) by simp
  show ?thesis
    using n a(1) b c d unfolding ns1_def ns2_def by blast
qed

subsection \<open>Missing-key reports\<close>

lemma reports_fold_reporting:
  "reports (fold (\<lambda>l. reporting_missingKey r) ls s) = reports s @ replicate (length ls) r"
  by (induction ls arbitrary: s) (simp_all add: reporting_missingKey_def replicate_app_Cons_same)

lemma registry_fold_reporting: "registry (fold (\<lambda>l. reporting_missingKey r) ls s) = registry s"
  by (induction ls arbitrary: s) (simp_all add: reporting_missingKey_def)

lemma registry_contextChanged: "registry (contextChanged s) = registry s"
  by (simp add: store_defs split: option.splits)

lemma reports_contextChanged: "reports (contextChanged s) = reports s"
  by (simp add: store_defs split: option.splits)

lemma registry_fold_contextChanged: "registry (fold (\<lambda>l. contextChanged) ls s) = registry s"
  by (induction ls arbitrary: s) (simp_all add: registry_contextChanged)

lemma reports_fold_contextChanged: "reports (fold (\<lambda>l. contextChanged) ls s) = reports s"
  by (induction ls arbitrary: s) (simp_all add: reports_contextChanged)

lemma reports_doneData: "reports (initInstanceFx_doneData result s) = reports s"
  by (simp add: initInstanceFx_doneData_def setupListenersFx_def store_defs Let_def
      split: option.splits)

lemma missingKey_registered_doneData:
  "registered j MissingKey (initInstanceFx_doneData result s) = registered j MissingKey s"
  by (simp add: initInstanceFx_doneData_def setupListenersFx_def store_defs Let_def registered_def
      split: option.splits)

lemma keeps_listeners_step:
  assumes "keeps_listeners e"
  shows "registered j MissingKey (step s e) = registered j MissingKey s"
    and "reports (step s e) = reports s @ published s e"
proof -
  show "registered j MissingKey (step s e) = registered j MissingKey s"
  proof (cases e)
    case (Settle k)
    have "registered j MissingKey (initInstanceFx_doneData result (s\<lparr>inflight := drop_nth k (inflight s)\<rparr>))
        = registered j MissingKey s" for result
      by (simp add: missingKey_registered_doneData) (simp add: registered_def)
    then show ?thesis
      using Settle by (simp add: settle_run_def Let_def split: initInstance_run.splits)
  next
    case (Reject k)
    then show ?thesis
      by (simp add: reject_run_def registered_def split: initInstance_run.splits)
  qed (use assms in \<open>simp_all add: registered_def registry_fold_reporting
         registry_fold_contextChanged\<close>)
  show "reports (step s e) = reports s @ published s e"
  proof (cases e)
    case (Settle k)
    then show ?thesis
      by (simp add: settle_run_def Let_def reports_doneData split: initInstance_run.splits)
  next
    case (Reject k)
    then show ?thesis by (simp add: reject_run_def split: initInstance_run.splits)
  qed (use assms in \<open>simp_all add: reports_fold_reporting reports_fold_contextChanged\<close>)
qed

lemma published_cong:
  assumes "\<And>j. registered j MissingKey s' = registered j MissingKey s"
  shows "published s' e = published s e"
  by (cases e) (simp_all add: assms)

lemma keeps_listeners_run:
  assumes "list_all keeps_listeners es"
  shows "reports (run s es) = reports s @ concat (map (published s) es)"
  using assms
proof (induction es arbitrary: s)
  case Nil
  then show ?case by (simp add: run_def)
next
  case (Cons e es)
  have k: "keeps_listeners e" "list_all keeps_listeners es"
    using Cons.prems by simp_all
  have p: "published (step s e) = published s"
    using keeps_listeners_step(1) [OF k(1)] published_cong [of "step s e" s] by blast
  have "reports (run (step s e) es) = reports (step s e) @ concat (map (published (step s e)) es)"
    using Cons.IH [OF k(2)] .
  then show ?case
    unfolding p using keeps_listeners_step(2) [OF k(1), of s] by (simp add: run_def)
qed

lemma published_by_one_listener:
  assumes "registered i MissingKey s = [l]" and "list_all (only_from i) es"
  shows "concat (map (published s) es) = concat (map emitted es)"
  using assms(2)
proof (induction es)
  case Nil
  then show ?case by simp
next
  case (Cons e es)
  then show ?case by (cases e) (simp_all add: assms(1))
qed

text \<open>
  Claim C5, as stated: a native \<^verbatim>\<open>missingKey\<close> notification emitted before init completes
  is delivered as exactly one published report, with no duplication. It is not when setup has
  fired twice on the instance, or when a teardown and a second setup fall into the pending
  period: two missing-key listeners are then registered on the instance, both
  initialisations are still in flight, and one notification is published twice.
\<close>

theorem one_report_per_notification_counterexample:
  "reports (run (createI18nextIntegration (Some 0) {})
      [Setup, Setup,
       Emit_missingKey 0 \<lparr>lngs = [''en''], namespace = ''translation'', key = ''a'', res = ''a''\<rparr>]) =
     [\<lparr>lngs = [''en''], namespace = ''translation'', key = ''a'', res = ''a''\<rparr>,
      \<lparr>lngs = [''en''], namespace = ''translation'', key = ''a'', res = ''a''\<rparr>]
   \<and> inflight (run (createI18nextIntegration (Some 0) {})
      [Setup, Setup,
       Emit_missingKey 0 \<lparr>lngs = [''en''], namespace = ''translation'', key = ''a'', res = ''a''\<rparr>]) =
     [AwaitingInit 0 0, AwaitingInit 0 1]
   \<and> reports (run (createI18nextIntegration (Some 0) {})
      [Setup, Teardown, Setup,
       Emit_missingKey 0 \<lparr>lngs = [''en''], namespace = ''translation'', key = ''a'', res = ''a''\<rparr>]) =
     [\<lparr>lngs = [''en''], namespace = ''translation'', key = ''a'', res = ''a''\<rparr>,
      \<lparr>lngs = [''en''], namespace = ''translation'', key = ''a'', res = ''a''\<rparr>]"
  by code_simp

text \<open>
  Claim C5, amended. Every run of the initialisation attaches a missing-key listener to the
  instance before \<^verbatim>\<open>isInitialized\<close> is read and \<^verbatim>\<open>init()\<close> is called, next to the
  listeners already there. A native \<^verbatim>\<open>missingKey\<close> notification is published once for
  each missing-key listener the integration has on the emitting instance at that moment, and
  until the next setup, instance update or teardown that number does not change. So after
  one setup on an instance that had no such listener, every notification that instance emits
  before init completes, and after, is published exactly once, in order, none lost; with two
  setups each notification is published twice.
\<close>

theorem missing_key_published_per_listener:
  "(S_instance s = Some i \<longrightarrow>
      calls (step s Setup) =
        calls s @ On i MissingKey (fresh s) # (if i \<in> isInitialized s then [] else [Init i]) \<and>
      registered i MissingKey (step s Setup) = registered i MissingKey s @ [fresh s])
   \<and> reports (step s (Emit_missingKey i r)) =
       reports s @ replicate (length (registered i MissingKey s)) r
   \<and> (list_all keeps_listeners es \<longrightarrow>
        reports (run s es) = reports s @ concat (map (published s) es))
   \<and> (S_instance s = Some i \<and> registered i MissingKey s = [] \<and>
      list_all keeps_listeners es \<and> list_all (only_from i) es \<longrightarrow>
        reports (run (step s Setup) es) = reports s @ concat (map emitted es))"
proof -
  have a: "calls (step s Setup) =
        calls s @ On i MissingKey (fresh s) # (if i \<in> isInitialized s then [] else [Init i])"
    "registered i MissingKey (step s Setup) = registered i MissingKey s @ [fresh s]"
    "reports (step s Setup) = reports s"
    if "S_instance s = Some i"
    using that
    by (simp_all add: initInstanceFx_def engine_on_def engine_init_def Let_def registered_def)
  have b: "reports (step s (Emit_missingKey i r)) =
       reports s @ replicate (length (registered i MissingKey s)) r"
    by (simp add: reports_fold_reporting)
  have c: "reports (run s es) = reports s @ concat (map (published s) es)"
    if "list_all keeps_listeners es"
    using that by (rule keeps_listeners_run)
  have d: "reports (run (step s Setup) es) = reports s @ concat (map emitted es)"
    if h: "S_instance s = Some i" "registered i MissingKey s = []"
      "list_all keeps_listeners es" "list_all (only_from i) es"
  proof -
    have one: "registered i MissingKey (step s Setup) = [fresh s]"
      using a(2) [OF h(1)] h(2) by simp
    have "reports (run (step s Setup) es) =
        reports (step s Setup) @ concat (map (published (step s Setup)) es)"
      using h(3) by (rule keeps_listeners_run)
    then show ?thesis
      unfolding published_by_one_listener [OF one h(4)] a(3) [OF h(1)] .
  qed
  show ?thesis
    using a(1,2) b c d by blast
qed

theorem missing_key_published_per_listener_witness:
  "S_instance (createI18nextIntegration (Some 0) {}) = Some 0
   \<and> registered 0 MissingKey (createI18nextIntegration (Some 0) {}) = []
   \<and> list_all keeps_listeners
       [Emit_missingKey 0 \<lparr>lngs = [''en''], namespace = ''translation'', key = ''a'', res = ''a''\<rparr>,
        Emit_languageChanged 0, Settle 0,
        Emit_missingKey 0 \<lparr>lngs = [''en''], namespace = ''translation'', key = ''b'', res = ''b''\<rparr>]
   \<and> list_all (only_from 0)
       [Emit_missingKey 0 \<lparr>lngs = [''en''], namespace = ''translation'', key = ''a'', res = ''a''\<rparr>,
        Emit_languageChanged 0, Settle 0,
        Emit_missingKey 0 \<lparr>lngs = [''en''], namespace = ''translation'', key = ''b'', res = ''b''\<rparr>]
   \<and> calls (step (createI18nextIntegration (Some 0) {}) Setup) = [On 0 MissingKey 0, Init 0]
   \<and> reports (run (step (createI18nextIntegration (Some 0) {}) Setup)
       [Emit_missingKey 0 \<lparr>lngs = [''en''], namespace = ''translation'', key = ''a'', res = ''a''\<rparr>,
        Emit_languageChanged 0, Settle 0,
        Emit_missingKey 0 \<lparr>lngs = [''en''], namespace = ''translation'', key = ''b'', res = ''b''\<rparr>]) =
       [\<lparr>lngs = [''en''], namespace = ''translation'', key = ''a'', res = ''a''\<rparr>,
        \<lparr>lngs = [''en''], namespace = ''translation'', key = ''b'', res = ''b''\<rparr>]"
proof -
  define es where "es =
       [Emit_missingKey 0 \<lparr>lngs = [''en''], namespace = ''translation'', key = ''a'', res = ''a''\<rparr>,
        Emit_languageChanged 0, Settle 0,
        Emit_missingKey 0 \<lparr>lngs = [''en''], namespace = ''translation'', key = ''b'', res = ''b''\<rparr>]"
  have h: "S_instance (createI18nextIntegration (Some 0) {}) = Some 0"
    "registered 0 MissingKey (createI18nextIntegration (Some 0) {}) = []"
    "list_all keeps_listeners es" "list_all (only_from 0) es"
    by (simp_all add: createI18nextIntegration_def registered_def es_def)
  have e: "calls (createI18nextIntegration (Some 0) {}) = []"
    "fresh (createI18nextIntegration (Some 0) {}) = 0"
    "reports (createI18nextIntegration (Some 0) {}) = []"
    "isInitialized (createI18nextIntegration (Some 0) {}) = {}"
    by (simp_all add: createI18nextIntegration_def)
  note t = missing_key_published_per_listener [of "createI18nextIntegration (Some 0) {}" 0 _ es]
  have a: "calls (step (createI18nextIntegration (Some 0) {}) Setup) = [On 0 MissingKey 0, Init 0]"
    using h(1) t by (simp add: e del: step.simps)
  have "reports (run (step (createI18nextIntegration (Some 0) {}) Setup) es) =
      reports (createI18nextIntegration (Some 0) {}) @ concat (map emitted es)"
    using h t by blast
  then have b: "reports (run (step (createI18nextIntegration (Some 0) {}) Setup) es) =
       [\<lparr>lngs = [''en''], namespace = ''translation'', key = ''a'', res = ''a''\<rparr>,
        \<lparr>lngs = [''en''], namespace = ''translation'', key = ''b'', res = ''b''\<rparr>]"
    by (simp add: e es_def del: step.simps)
  show ?thesis
    using h a b unfolding es_def by blast
qed

end
